theory Spec2Isabelle
  imports Main "HOL-Library.Sublist" "HOL-Library.Char_ord" "HOL-Library.List_Lexorder"
    "HOL-Library.Multiset"
begin

section \<open>The ZooKeeper binding and the client wrapper (kazoo/zkclient.py)\<close>

text \<open>
  Result codes of the \<^verbatim>\<open>zookeeper\<close> C binding: \<open>OK\<close>, the nineteen codes that
  \<^verbatim>\<open>_ERR_TO_EXCEPTION\<close> lists, and \<open>OTHER_CODE\<close> for any code outside that table.
\<close>

datatype zk_code =
    OK | SYSTEMERROR | RUNTIMEINCONSISTENCY | DATAINCONSISTENCY | CONNECTIONLOSS
  | MARSHALLINGERROR | UNIMPLEMENTED | OPERATIONTIMEOUT | BADARGUMENTS | APIERROR
  | NONODE | NOAUTH | BADVERSION | NOCHILDRENFOREPHEMERALS | NODEEXISTS | INVALIDACL
  | AUTHFAILED | NOTEMPTY | SESSIONEXPIRED | INVALIDCALLBACK | OTHER_CODE

text \<open>
  The exceptions that can travel through the lock recipe: the typed ZooKeeper exceptions,
  the plain \<^verbatim>\<open>Exception\<close> that \<^verbatim>\<open>err_to_exception\<close> builds for an unlisted code,
  \<^verbatim>\<open>ForceRetryError\<close> of kazoo.retry, and the two Python errors raised when
  \<^verbatim>\<open>self.node\<close> is read before it holds a string. Messages are not modelled.
\<close>

datatype exn =
    SystemErrorException | RuntimeInconsistencyException | DataInconsistencyException
  | ConnectionLossException | MarshallingErrorException | UnimplementedException
  | OperationTimeoutException | BadArgumentsException | ApiErrorException
  | NoNodeException | NoAuthException | BadVersionException
  | NoChildrenForEphemeralsException | NodeExistsException | InvalidACLException
  | AuthFailedException | NotEmptyException | SessionExpiredException
  | InvalidCallbackException | GenericException
  | ForceRetryError | TypeError | AttributeError

text \<open>\<^verbatim>\<open>_ERR_TO_EXCEPTION.get(error_code)\<close>: the table, \<open>None\<close> for a code it does not list.\<close>

fun ERR_TO_EXCEPTION :: "zk_code \<Rightarrow> exn option" where
  "ERR_TO_EXCEPTION SYSTEMERROR = Some SystemErrorException"
| "ERR_TO_EXCEPTION RUNTIMEINCONSISTENCY = Some RuntimeInconsistencyException"
| "ERR_TO_EXCEPTION DATAINCONSISTENCY = Some DataInconsistencyException"
| "ERR_TO_EXCEPTION CONNECTIONLOSS = Some ConnectionLossException"
| "ERR_TO_EXCEPTION MARSHALLINGERROR = Some MarshallingErrorException"
| "ERR_TO_EXCEPTION UNIMPLEMENTED = Some UnimplementedException"
| "ERR_TO_EXCEPTION OPERATIONTIMEOUT = Some OperationTimeoutException"
| "ERR_TO_EXCEPTION BADARGUMENTS = Some BadArgumentsException"
| "ERR_TO_EXCEPTION APIERROR = Some ApiErrorException"
| "ERR_TO_EXCEPTION NONODE = Some NoNodeException"
| "ERR_TO_EXCEPTION NOAUTH = Some NoAuthException"
| "ERR_TO_EXCEPTION BADVERSION = Some BadVersionException"
| "ERR_TO_EXCEPTION NOCHILDRENFOREPHEMERALS = Some NoChildrenForEphemeralsException"
| "ERR_TO_EXCEPTION NODEEXISTS = Some NodeExistsException"
| "ERR_TO_EXCEPTION INVALIDACL = Some InvalidACLException"
| "ERR_TO_EXCEPTION AUTHFAILED = Some AuthFailedException"
| "ERR_TO_EXCEPTION NOTEMPTY = Some NotEmptyException"
| "ERR_TO_EXCEPTION SESSIONEXPIRED = Some SessionExpiredException"
| "ERR_TO_EXCEPTION INVALIDCALLBACK = Some InvalidCallbackException"
| "ERR_TO_EXCEPTION OK = None"
| "ERR_TO_EXCEPTION OTHER_CODE = None"

text \<open>
  \<^verbatim>\<open>err_to_exception(error_code)\<close>: the listed exception; for an unlisted code,
  \<open>None\<close> when the code is \<open>OK\<close> and the generic exception otherwise.
\<close>

definition err_to_exception :: "zk_code \<Rightarrow> exn option" where
  "err_to_exception error_code =
     (case ERR_TO_EXCEPTION error_code of
        Some exc \<Rightarrow> Some exc
      | None \<Rightarrow> if error_code = OK then None else Some GenericException)"

text \<open>
  \<^verbatim>\<open>_generic_callback\<close> followed by \<^verbatim>\<open>async_result.get()\<close>: a code other than
  \<open>OK\<close> raises its exception, \<open>OK\<close> yields the arguments of the callback. (The inner
  \<open>None\<close> branch cannot be reached: \<open>err_to_exception\<close> is \<open>None\<close> at \<open>OK\<close> only.)
\<close>

definition generic_callback :: "zk_code \<Rightarrow> 'a \<Rightarrow> exn + 'a" where
  "generic_callback code args =
     (if code \<noteq> OK
      then (case err_to_exception code of Some exc \<Rightarrow> Inl exc | None \<Rightarrow> Inl GenericException)
      else Inr args)"

text \<open>
  A node's stat is a dictionary of the binding; \<^verbatim>\<open>_exists_callback\<close> passes it on for
  \<open>OK\<close> and for \<open>NONODE\<close> (where the binding hands over \<^verbatim>\<open>None\<close>) and raises for
  every other code.
\<close>

type_synonym stat = "(string \<times> int) list"

definition exists_callback :: "zk_code \<Rightarrow> stat option \<Rightarrow> exn + stat option" where
  "exists_callback code st =
     (if code \<noteq> OK \<and> code \<noteq> NONODE
      then (case err_to_exception code of Some exc \<Rightarrow> Inl exc | None \<Rightarrow> Inl GenericException)
      else Inr st)"

text \<open>
  The service behind the binding is a parameter: every asynchronous entry point, together
  with the completion it is waited for, is a function from the state \<open>'w\<close> of the outside
  world (the server, the session, the other contenders) to the callback's arguments and
  the next state. \<open>cond_wait\<close> is \<^verbatim>\<open>threading.Condition.wait()\<close> of the lock's
  condition: \<open>None\<close> when the waiter is never woken, else the world it wakes up in.
  Creation flags are the two booleans \<open>ephemeral\<close> and \<open>sequence\<close>; the ACL is always the
  default one and is left out; the boolean of \<open>aexists\<close> says whether a watch is passed.
\<close>

record 'w zookeeper =
  acreate :: "string \<Rightarrow> string \<Rightarrow> bool \<Rightarrow> bool \<Rightarrow> 'w \<Rightarrow> (zk_code \<times> string) \<times> 'w"
  adelete :: "string \<Rightarrow> int \<Rightarrow> 'w \<Rightarrow> zk_code \<times> 'w"
  aget_children :: "string \<Rightarrow> 'w \<Rightarrow> (zk_code \<times> string list) \<times> 'w"
  aget :: "string \<Rightarrow> 'w \<Rightarrow> (zk_code \<times> string \<times> stat) \<times> 'w"
  aexists :: "string \<Rightarrow> bool \<Rightarrow> 'w \<Rightarrow> (zk_code \<times> stat option) \<times> 'w"
  cond_wait :: "'w \<Rightarrow> 'w option"

section \<open>The lock handle (kazoo/recipe/lock.py)\<close>

text \<open>
  The attribute \<^verbatim>\<open>self.node\<close> is not assigned by \<^verbatim>\<open>__init__\<close>: it is unassigned
  until \<^verbatim>\<open>_inner_acquire\<close> stores a name, and \<^verbatim>\<open>_inner_release\<close> stores
  \<^verbatim>\<open>None\<close>. The attributes \<^verbatim>\<open>client\<close> and \<^verbatim>\<open>condition\<close> are not fields of
  the record: they are the service that every operation takes as its parameter.
\<close>

datatype node_attr = Unassigned | PyNone | Name string

record ZooLock =
  path :: string
  data :: string
  prefix_l :: string
  create_path :: string
  create_tried :: bool
  is_acquired :: bool
  node :: node_attr

definition LOCK_NAME :: string where
  "LOCK_NAME = ''_lock_''"

text \<open>
  \<^verbatim>\<open>__init__\<close>; the hexadecimal form of the fresh uuid is the parameter \<open>uuid_hex\<close>,
  and \<open>contender_name\<close> is \<open>None\<close> when the argument is left out.
\<close>

definition init :: "string \<Rightarrow> string option \<Rightarrow> string \<Rightarrow> ZooLock" where
  "init p contender_name uuid_hex =
     \<lparr> path = p,
       data = (case contender_name of None \<Rightarrow> [] | Some n \<Rightarrow> n),
       prefix_l = uuid_hex @ LOCK_NAME,
       create_path = p @ ''/'' @ (uuid_hex @ LOCK_NAME),
       create_tried = False,
       is_acquired = False,
       node = Unassigned \<rparr>"

text \<open>
  What an operation of the handle runs on: the handle's own fields, the outside world,
  and the log of the calls made so far on the client and on the condition.
\<close>

datatype event =
    Create string string bool bool
  | Delete string
  | GetChildren string
  | Get string
  | Exists string bool
  | Wait

record 'w state =
  lock :: ZooLock
  world :: 'w
  calls :: "event list"

subsection \<open>The synchronous client calls the lock makes\<close>

definition client_create ::
  "'w zookeeper \<Rightarrow> string \<Rightarrow> string \<Rightarrow> bool \<Rightarrow> bool \<Rightarrow> 'w state \<Rightarrow> (exn + string) \<times> 'w state" where
  "client_create zk p v ephemeral sequence s =
     (case acreate zk p v ephemeral sequence (world s) of
        ((code, real_path), w) \<Rightarrow>
          (generic_callback code real_path,
           s\<lparr>world := w, calls := calls s @ [Create p v ephemeral sequence]\<rparr>))"

definition client_delete ::
  "'w zookeeper \<Rightarrow> string \<Rightarrow> 'w state \<Rightarrow> (exn + unit) \<times> 'w state" where
  "client_delete zk p s =
     (case adelete zk p (- 1) (world s) of
        (code, w) \<Rightarrow>
          (generic_callback code (), s\<lparr>world := w, calls := calls s @ [Delete p]\<rparr>))"

definition client_get_children ::
  "'w zookeeper \<Rightarrow> string \<Rightarrow> 'w state \<Rightarrow> (exn + string list) \<times> 'w state" where
  "client_get_children zk p s =
     (case aget_children zk p (world s) of
        ((code, children), w) \<Rightarrow>
          (generic_callback code children,
           s\<lparr>world := w, calls := calls s @ [GetChildren p]\<rparr>))"

definition client_get ::
  "'w zookeeper \<Rightarrow> string \<Rightarrow> 'w state \<Rightarrow> (exn + string \<times> stat) \<times> 'w state" where
  "client_get zk p s =
     (case aget zk p (world s) of
        ((code, value, st), w) \<Rightarrow>
          (generic_callback code (value, st), s\<lparr>world := w, calls := calls s @ [Get p]\<rparr>))"

definition client_exists ::
  "'w zookeeper \<Rightarrow> string \<Rightarrow> bool \<Rightarrow> 'w state \<Rightarrow> (exn + stat option) \<times> 'w state" where
  "client_exists zk p watch s =
     (case aexists zk p watch (world s) of
        ((code, st), w) \<Rightarrow>
          (exists_callback code st, s\<lparr>world := w, calls := calls s @ [Exists p watch]\<rparr>))"

subsection \<open>Python's string and list primitives\<close>

text \<open>\<^verbatim>\<open>s.find(sub)\<close>: the lowest index at which \<open>sub\<close> occurs in \<open>s\<close>, or \<open>-1\<close>.\<close>

fun find_from :: "string \<Rightarrow> string \<Rightarrow> nat \<Rightarrow> int" where
  "find_from sub [] i = (if sub = [] then int i else - 1)"
| "find_from sub (c # cs) i =
     (if prefix sub (c # cs) then int i else find_from sub cs (Suc i))"

definition py_find :: "string \<Rightarrow> string \<Rightarrow> int" where
  "py_find s sub = find_from sub s 0"

text \<open>\<^verbatim>\<open>s[k:]\<close>: a negative \<open>k\<close> counts from the end, and the slice never raises.\<close>

definition slice_from :: "string \<Rightarrow> int \<Rightarrow> string" where
  "slice_from s k = (if k < 0 then drop (nat (int (length s) + k)) s else drop (nat k) s)"

text \<open>\<^verbatim>\<open>xs.index(x)\<close>: the first position of \<open>x\<close>; \<open>None\<close> stands for \<^verbatim>\<open>ValueError\<close>.\<close>

fun index_of :: "'a list \<Rightarrow> 'a \<Rightarrow> nat option" where
  "index_of [] x = None"
| "index_of (y # ys) x =
     (if y = x then Some 0 else map_option Suc (index_of ys x))"

subsection \<open>Listing the children\<close>

text \<open>The key of the sort in \<^verbatim>\<open>_get_sorted_children\<close>.\<close>

definition sort_key_of :: "string \<Rightarrow> string" where
  "sort_key_of c = slice_from c (py_find c LOCK_NAME + int (length LOCK_NAME))"

text \<open>
  \<^verbatim>\<open>_get_sorted_children\<close>. \<^verbatim>\<open>list.sort(key=...)\<close> is a stable sort on the keys,
  and Python compares strings lexicographically by character code; \<open>sort_key\<close> is a
  stable insertion sort and strings are ordered the same way here.
\<close>

definition get_sorted_children ::
  "'w zookeeper \<Rightarrow> 'w state \<Rightarrow> (exn + string list) \<times> 'w state" where
  "get_sorted_children zk s =
     (case client_get_children zk (path (lock s)) s of
        (Inl e, s1) \<Rightarrow> (Inl e, s1)
      | (Inr children, s1) \<Rightarrow> (Inr (sort_key sort_key_of children), s1))"

text \<open>\<^verbatim>\<open>_find_node\<close>: the first listed child that starts with the handle's prefix.\<close>

definition find_node ::
  "'w zookeeper \<Rightarrow> 'w state \<Rightarrow> (exn + string option) \<times> 'w state" where
  "find_node zk s =
     (case client_get_children zk (path (lock s)) s of
        (Inl e, s1) \<Rightarrow> (Inl e, s1)
      | (Inr children, s1) \<Rightarrow> (Inr (List.find (prefix (prefix_l (lock s))) children), s1))"

subsection \<open>Acquiring\<close>

text \<open>
  Lines 57 to 60: the create of the ephemeral, sequential node, and the name that is left
  once the parent's path and the slash are cut off the returned path.
\<close>

definition create_node :: "'w zookeeper \<Rightarrow> 'w state \<Rightarrow> (exn + string) \<times> 'w state" where
  "create_node zk s =
     (case client_create zk (create_path (lock s)) (data (lock s)) True True s of
        (Inl e, s1) \<Rightarrow> (Inl e, s1)
      | (Inr real_path, s1) \<Rightarrow>
          (Inr (slice_from real_path (int (length (path (lock s))) + 1)), s1))"

text \<open>
  Lines 50 to 62 of \<^verbatim>\<open>_inner_acquire\<close>, up to the loop: look the node up when a create
  was tried before, else mark the create as tried; create when \<^verbatim>\<open>not node\<close> holds,
  which is so for \<^verbatim>\<open>None\<close> and for the empty string; store the name in
  \<^verbatim>\<open>self.node\<close>.
\<close>

definition acquire_node :: "'w zookeeper \<Rightarrow> 'w state \<Rightarrow> (exn + string) \<times> 'w state" where
  "acquire_node zk s =
     (case (if create_tried (lock s) then find_node zk s
            else (Inr None, s\<lparr>lock := (lock s)\<lparr>create_tried := True\<rparr>\<rparr>)) of
        (Inl e, s1) \<Rightarrow> (Inl e, s1)
      | (Inr found, s1) \<Rightarrow>
          (case (case found of
                   None \<Rightarrow> create_node zk s1
                 | Some n \<Rightarrow> if n = [] then create_node zk s1 else (Inr n, s1)) of
             (Inl e, s2) \<Rightarrow> (Inl e, s2)
           | (Inr n, s2) \<Rightarrow> (Inr n, s2\<lparr>lock := (lock s2)\<lparr>node := Name n\<rparr>\<rparr>)))"

text \<open>
  One pass through the body of \<^verbatim>\<open>while True\<close> (lines 65 to 84): it returns, raises,
  goes round again, or stays blocked in \<^verbatim>\<open>condition.wait()\<close>.
\<close>

datatype pass = Return bool | Raise exn | Again | Blocked

definition acquire_pass :: "'w zookeeper \<Rightarrow> string \<Rightarrow> 'w state \<Rightarrow> pass \<times> 'w state" where
  "acquire_pass zk nd s =
     (case get_sorted_children zk s of
        (Inl e, s1) \<Rightarrow> (Raise e, s1)
      | (Inr children, s1) \<Rightarrow>
          (case index_of children nd of
             None \<Rightarrow> (Raise ForceRetryError, s1)
           | Some our_index \<Rightarrow>
               if our_index = 0 then (Return True, s1)
               else
                 (case client_exists zk
                         (path (lock s1) @ ''/'' @ children ! (our_index - 1)) True s1 of
                    (Inl e, s2) \<Rightarrow> (Raise e, s2)
                  | (Inr st, s2) \<Rightarrow>
                      if st \<noteq> None \<and> st \<noteq> Some []
                      then (case cond_wait zk (world s2) of
                              None \<Rightarrow> (Blocked, s2\<lparr>calls := calls s2 @ [Wait]\<rparr>)
                            | Some w \<Rightarrow> (Again, s2\<lparr>world := w, calls := calls s2 @ [Wait]\<rparr>))
                      else (Again, s2))))"

text \<open>
  The loop, with at most \<open>k\<close> passes: \<open>None\<close> when the loop has not left after \<open>k\<close>
  passes or is blocked for good.
\<close>

fun acquire_loop ::
  "nat \<Rightarrow> 'w zookeeper \<Rightarrow> string \<Rightarrow> 'w state \<Rightarrow> ((exn + bool) \<times> 'w state) option" where
  "acquire_loop 0 zk nd s = None"
| "acquire_loop (Suc k) zk nd s =
     (case acquire_pass zk nd s of
        (Return b, s1) \<Rightarrow> Some (Inr b, s1)
      | (Raise e, s1) \<Rightarrow> Some (Inl e, s1)
      | (Again, s1) \<Rightarrow> acquire_loop k zk nd s1
      | (Blocked, s1) \<Rightarrow> None)"

text \<open>\<^verbatim>\<open>_inner_acquire\<close>, the operation that \<^verbatim>\<open>acquire\<close> hands to the retry executor.\<close>

definition inner_acquire ::
  "nat \<Rightarrow> 'w zookeeper \<Rightarrow> 'w state \<Rightarrow> ((exn + bool) \<times> 'w state) option" where
  "inner_acquire k zk s =
     (case acquire_node zk s of
        (Inl e, s1) \<Rightarrow> Some (Inl e, s1)
      | (Inr nd, s1) \<Rightarrow> acquire_loop k zk nd s1)"

text \<open>
  \<^verbatim>\<open>_best_effort_cleanup\<close>: whatever is raised inside is swallowed, so only the state
  comes back.
\<close>

definition best_effort_cleanup :: "'w zookeeper \<Rightarrow> 'w state \<Rightarrow> 'w state" where
  "best_effort_cleanup zk s =
     (case find_node zk s of
        (Inl e, s1) \<Rightarrow> s1
      | (Inr found, s1) \<Rightarrow>
          (case found of
             None \<Rightarrow> s1
           | Some n \<Rightarrow>
               if n \<noteq> [] then snd (client_delete zk (path (lock s1) @ ''/'' @ n) s1) else s1))"

subsection \<open>The retry executor\<close>

text \<open>
  Modelled from the spec: the failures on which the retry executor invokes the operation
  again. \<^verbatim>\<open>client.retry\<close> and the module kazoo.retry are not among the sources;
  section 4.2 of the specification names the force-retry signal and the recognised
  transient failures, connection loss and operation timeout.
\<close>

definition retryable :: "exn \<Rightarrow> bool" where
  "retryable e =
     (e = ForceRetryError \<or> e = ConnectionLossException \<or> e = OperationTimeoutException)"

text \<open>
  Modelled from the spec: the retry executor \<^verbatim>\<open>client.retry\<close>, which is not among the
  sources. Section 4.2 of the specification: it invokes the operation; on the force-retry
  signal or a recognised transient failure it invokes the operation again; on any other
  failure it propagates at once without retrying. Delays are not modelled. \<open>n\<close> bounds
  the number of invocations: \<open>None\<close> when the executor has not returned after \<open>n\<close>
  invocations, or when an invocation itself does not return.
\<close>

fun retry ::
  "nat \<Rightarrow> ('s \<Rightarrow> ((exn + 'a) \<times> 's) option) \<Rightarrow> 's \<Rightarrow> ((exn + 'a) \<times> 's) option" where
  "retry 0 func s = None"
| "retry (Suc n) func s =
     (case func s of
        None \<Rightarrow> None
      | Some (Inr v, s1) \<Rightarrow> Some (Inr v, s1)
      | Some (Inl e, s1) \<Rightarrow> if retryable e then retry n func s1 else Some (Inl e, s1))"

subsection \<open>The public operations\<close>

text \<open>
  \<^verbatim>\<open>acquire\<close>: \<open>n\<close> bounds the invocations of the retried body and \<open>k\<close> the passes of
  its loop. Every exception of the model derives from \<^verbatim>\<open>Exception\<close>, so the handler
  catches whatever the executor raises.
\<close>

definition acquire ::
  "nat \<Rightarrow> nat \<Rightarrow> 'w zookeeper \<Rightarrow> 'w state \<Rightarrow> ((exn + unit) \<times> 'w state) option" where
  "acquire n k zk s =
     (case retry n (inner_acquire k zk) s of
        None \<Rightarrow> None
      | Some (Inr b, s1) \<Rightarrow> Some (Inr (), s1\<lparr>lock := (lock s1)\<lparr>is_acquired := True\<rparr>\<rparr>)
      | Some (Inl e, s1) \<Rightarrow> Some (Inl e, best_effort_cleanup zk s1))"

text \<open>
  \<^verbatim>\<open>_inner_release\<close>. Joining the path with \<^verbatim>\<open>self.node\<close> raises when the attribute
  holds \<^verbatim>\<open>None\<close> or was never assigned.
\<close>

definition inner_release :: "'w zookeeper \<Rightarrow> 'w state \<Rightarrow> (exn + bool) \<times> 'w state" where
  "inner_release zk s =
     (if \<not> is_acquired (lock s) then (Inr False, s)
      else
        (case node (lock s) of
           Unassigned \<Rightarrow> (Inl AttributeError, s)
         | PyNone \<Rightarrow> (Inl TypeError, s)
         | Name nd \<Rightarrow>
             (case client_delete zk (path (lock s) @ ''/'' @ nd) s of
                (Inl e, s1) \<Rightarrow> (Inl e, s1)
              | (Inr u, s1) \<Rightarrow>
                  (Inr True, s1\<lparr>lock := (lock s1)\<lparr>is_acquired := False, node := PyNone\<rparr>\<rparr>))))"

definition release ::
  "nat \<Rightarrow> 'w zookeeper \<Rightarrow> 'w state \<Rightarrow> ((exn + bool) \<times> 'w state) option" where
  "release n zk s = retry n (\<lambda>s. Some (inner_release zk s)) s"

text \<open>
  \<^verbatim>\<open>get_contenders\<close>: the loop over the sorted children, with the list gathered so
  far; only \<^verbatim>\<open>NoNodeException\<close> is caught.
\<close>

fun fetch_contenders ::
  "'w zookeeper \<Rightarrow> string list \<Rightarrow> string list \<Rightarrow> 'w state \<Rightarrow> (exn + string list) \<times> 'w state" where
  "fetch_contenders zk [] contenders s = (Inr contenders, s)"
| "fetch_contenders zk (child # children) contenders s =
     (case client_get zk (path (lock s) @ ''/'' @ child) s of
        (Inr (d, st), s1) \<Rightarrow> fetch_contenders zk children (contenders @ [d]) s1
      | (Inl e, s1) \<Rightarrow>
          if e = NoNodeException then fetch_contenders zk children contenders s1
          else (Inl e, s1))"

definition get_contenders ::
  "'w zookeeper \<Rightarrow> 'w state \<Rightarrow> (exn + string list) \<times> 'w state" where
  "get_contenders zk s =
     (case get_sorted_children zk s of
        (Inl e, s1) \<Rightarrow> (Inl e, s1)
      | (Inr children, s1) \<Rightarrow> fetch_contenders zk children [] s1)"

section \<open>A scripted service for concrete runs\<close>

text \<open>
  The world is the list of the replies still to come; each entry point takes the next
  reply when it is one of its own kind and answers \<open>SYSTEMERROR\<close> otherwise. A waiter
  is always woken.
\<close>

datatype reply =
    RCreate zk_code string
  | RDelete zk_code
  | RChildren zk_code "string list"
  | RGet zk_code string stat
  | RExists zk_code "stat option"

definition scripted :: "reply list zookeeper" where
  "scripted =
     \<lparr> acreate = (\<lambda>p v e q w.
         case w of RCreate c r # rest \<Rightarrow> ((c, r), rest) | _ \<Rightarrow> ((SYSTEMERROR, []), w)),
       adelete = (\<lambda>p v w.
         case w of RDelete c # rest \<Rightarrow> (c, rest) | _ \<Rightarrow> (SYSTEMERROR, w)),
       aget_children = (\<lambda>p w.
         case w of RChildren c r # rest \<Rightarrow> ((c, r), rest) | _ \<Rightarrow> ((SYSTEMERROR, []), w)),
       aget = (\<lambda>p w.
         case w of RGet c d st # rest \<Rightarrow> ((c, d, st), rest) | _ \<Rightarrow> ((SYSTEMERROR, [], []), w)),
       aexists = (\<lambda>p watch w.
         case w of RExists c st # rest \<Rightarrow> ((c, st), rest) | _ \<Rightarrow> ((SYSTEMERROR, None), w)),
       cond_wait = Some \<rparr>"

text \<open>A handle for the path \<^verbatim>\<open>/locks/demo\<close>, as \<open>init\<close> builds it, and one that holds the lock.\<close>

definition demo :: ZooLock where
  "demo = init ''/locks/demo'' (Some ''A'') ''0a1b''"

definition demo_held :: ZooLock where
  "demo_held = demo\<lparr>create_tried := True, is_acquired := True,
                   node := Name ''0a1b_lock_0000000001''\<rparr>"

section \<open>Notions of the specification\<close>

text \<open>
  The portion of a name following the contender-name marker, in the words of the
  specification: what is left of the name once everything up to and including the
  marker, at its first occurrence, is taken away.
\<close>

fun portion_after_marker :: "string \<Rightarrow> string \<Rightarrow> string" where
  "portion_after_marker m [] = []"
| "portion_after_marker m (c # cs) =
     (if prefix m (c # cs) then drop (length m) (c # cs) else portion_after_marker m cs)"

text \<open>
  The replies to the gets issued one after the other for the given children, each in the
  state the previous one has left.
\<close>

fun get_replies :: "'w zookeeper \<Rightarrow> string list \<Rightarrow> 'w state \<Rightarrow> (exn + string \<times> stat) list" where
  "get_replies zk [] s = []"
| "get_replies zk (child # children) s =
     (case client_get zk (path (lock s) @ ''/'' @ child) s of
        (r, s1) \<Rightarrow> r # get_replies zk children s1)"

text \<open>The data of a get that succeeded; nothing for one that raised.\<close>

fun reply_data :: "exn + string \<times> stat \<Rightarrow> string option" where
  "reply_data (Inr (d, st)) = Some d"
| "reply_data (Inl e) = None"

section \<open>Callbacks\<close>

lemma generic_callback_OK: "generic_callback OK x = Inr x"
  by (simp add: generic_callback_def)

lemma generic_callback_NONODE: "generic_callback NONODE x = Inl NoNodeException"
  by (simp add: generic_callback_def err_to_exception_def)


lemma generic_callback_Inr: "generic_callback code x = Inr y \<longleftrightarrow> code = OK \<and> y = x"
  by (auto simp: generic_callback_def split: option.splits)



section \<open>Fresh handles\<close>

lemma init_prefix_nonempty: "prefix_l (init p contender_name uuid_hex) \<noteq> []"
  by (simp add: init_def LOCK_NAME_def)

lemma init_unacquired:
  "\<not> is_acquired (init p contender_name uuid_hex) \<and>
   node (init p contender_name uuid_hex) = Unassigned"
  by (simp add: init_def)

section \<open>Releasing\<close>

lemma inner_release_unacquired:
  "\<not> is_acquired (lock s) \<Longrightarrow> inner_release zk s = (Inr False, s)"
  by (simp add: inner_release_def)

lemma inner_release_deleted:
  assumes "is_acquired (lock s)" and "node (lock s) = Name nd"
    and "fst (adelete zk (path (lock s) @ ''/'' @ nd) (- 1) (world s)) = OK"
  shows "inner_release zk s =
     (Inr True,
      s\<lparr>lock := (lock s)\<lparr>is_acquired := False, node := PyNone\<rparr>,
        world := snd (adelete zk (path (lock s) @ ''/'' @ nd) (- 1) (world s)),
        calls := calls s @ [Delete (path (lock s) @ ''/'' @ nd)]\<rparr>)"
  using assms
  by (auto simp: inner_release_def client_delete_def generic_callback_OK split: prod.splits)

lemma inner_release_failure_keeps_lock:
  "inner_release zk s = (Inl e, s1) \<Longrightarrow> lock s1 = lock s"
  by (auto simp: inner_release_def client_delete_def
      split: if_splits node_attr.splits prod.splits sum.splits)

lemma release_failure_keeps_lock:
  "release n zk s = Some (Inl e, s1) \<Longrightarrow> lock s1 = lock s"
proof (induction n arbitrary: s)
  case 0
  then show ?case by (simp add: release_def)
next
  case (Suc n)
  obtain r s' where r: "inner_release zk s = (r, s')"
    by (cases "inner_release zk s")
  show ?case
  proof (cases r)
    case (Inr b)
    with Suc.prems r show ?thesis by (simp add: release_def)
  next
    case (Inl e')
    with r have keep: "lock s' = lock s"
      by (simp add: inner_release_failure_keeps_lock)
    show ?thesis
    proof (cases "retryable e'")
      case True
      with Suc.prems r Inl have "release n zk s' = Some (Inl e, s1)"
        by (simp add: release_def)
      then have "lock s1 = lock s'" by (rule Suc.IH)
      with keep show ?thesis by simp
    next
      case False
      with Suc.prems r Inl keep show ?thesis by (auto simp: release_def)
    qed
  qed
qed

text \<open>
  C1. A handle that holds the lock and whose node is already gone from the store: the
  delete answers \<open>NONODE\<close>, \<open>_inner_release\<close> lets \<open>NoNodeException\<close> through, the
  executor does not retry it, and \<open>release\<close> raises it with the handle still marked as
  acquired, where the claim wants \<open>True\<close> returned and the flag cleared. The same
  happens when the reply to a first delete is lost (connection loss), the executor
  invokes the body again, and the second delete finds the node gone.
\<close>

theorem release_absent_node_raises:
  "inner_release scripted \<lparr>lock = demo_held, world = [RDelete NONODE], calls = []\<rparr> =
     (Inl NoNodeException,
      \<lparr>lock = demo_held, world = [], calls = [Delete ''/locks/demo/0a1b_lock_0000000001'']\<rparr>) \<and>
   (\<forall>n. release (Suc n) scripted \<lparr>lock = demo_held, world = [RDelete NONODE], calls = []\<rparr> =
     Some (Inl NoNodeException,
      \<lparr>lock = demo_held, world = [],
        calls = [Delete ''/locks/demo/0a1b_lock_0000000001'']\<rparr>)) \<and>
   (\<forall>n. release (Suc (Suc n)) scripted
          \<lparr>lock = demo_held, world = [RDelete CONNECTIONLOSS, RDelete NONODE], calls = []\<rparr> =
     Some (Inl NoNodeException,
      \<lparr>lock = demo_held, world = [],
        calls = [Delete ''/locks/demo/0a1b_lock_0000000001'',
                 Delete ''/locks/demo/0a1b_lock_0000000001'']\<rparr>)) \<and>
   is_acquired demo_held"
  by (simp add: release_def inner_release_def client_delete_def scripted_def demo_held_def
      demo_def init_def generic_callback_def err_to_exception_def retryable_def)

text \<open>
  C2. \<open>release\<close> on a handle that is not acquired returns \<open>False\<close> and leaves the whole
  state as it is: no field of the handle changes and no call is made. On an acquired
  handle whose delete of \<open>path/nodeName\<close> succeeds, it issues exactly that delete, returns
  \<open>True\<close>, clears the flag and the node name; a second \<open>release\<close> right after returns
  \<open>False\<close>. One invocation of the body, \<open>_inner_release\<close>, is enough for the executor
  to return what the body returns.
\<close>

theorem release_spec:
  "(\<not> is_acquired (lock s) \<longrightarrow>
      inner_release zk s = (Inr False, s) \<and> release (Suc n) zk s = Some (Inr False, s)) \<and>
   (is_acquired (lock s) \<and> node (lock s) = Name nd \<and>
    fst (adelete zk (path (lock s) @ ''/'' @ nd) (- 1) (world s)) = OK \<longrightarrow>
      (\<exists>s1. inner_release zk s = (Inr True, s1) \<and>
            release (Suc n) zk s = Some (Inr True, s1) \<and>
            \<not> is_acquired (lock s1) \<and> node (lock s1) = PyNone \<and>
            calls s1 = calls s @ [Delete (path (lock s) @ ''/'' @ nd)] \<and>
            release (Suc m) zk s1 = Some (Inr False, s1)))"
proof (intro conjI impI)
  assume "\<not> is_acquired (lock s)"
  then show "inner_release zk s = (Inr False, s)"
    by (rule inner_release_unacquired)
next
  assume "\<not> is_acquired (lock s)"
  then show "release (Suc n) zk s = Some (Inr False, s)"
    by (simp add: release_def inner_release_unacquired)
next
  assume a: "is_acquired (lock s) \<and> node (lock s) = Name nd \<and>
    fst (adelete zk (path (lock s) @ ''/'' @ nd) (- 1) (world s)) = OK"
  let ?s1 = "s\<lparr>lock := (lock s)\<lparr>is_acquired := False, node := PyNone\<rparr>,
        world := snd (adelete zk (path (lock s) @ ''/'' @ nd) (- 1) (world s)),
        calls := calls s @ [Delete (path (lock s) @ ''/'' @ nd)]\<rparr>"
  from a have r: "inner_release zk s = (Inr True, ?s1)"
    by (simp add: inner_release_deleted)
  then have "release (Suc n) zk s = Some (Inr True, ?s1)"
    by (simp add: release_def)
  moreover have "release (Suc m) zk ?s1 = Some (Inr False, ?s1)"
    by (simp add: release_def inner_release_unacquired)
  ultimately show "\<exists>s1. inner_release zk s = (Inr True, s1) \<and>
            release (Suc n) zk s = Some (Inr True, s1) \<and>
            \<not> is_acquired (lock s1) \<and> node (lock s1) = PyNone \<and>
            calls s1 = calls s @ [Delete (path (lock s) @ ''/'' @ nd)] \<and>
            release (Suc m) zk s1 = Some (Inr False, s1)"
    using r by (intro exI [of _ ?s1]) simp
qed

theorem release_spec_witness:
  "release (Suc 0) scripted \<lparr>lock = demo, world = [], calls = []\<rparr> =
     Some (Inr False, \<lparr>lock = demo, world = [], calls = []\<rparr>) \<and>
   (\<exists>s1. release (Suc 0) scripted \<lparr>lock = demo_held, world = [RDelete OK], calls = []\<rparr> =
            Some (Inr True, s1) \<and>
         \<not> is_acquired (lock s1) \<and> node (lock s1) = PyNone \<and>
         calls s1 = [Delete ''/locks/demo/0a1b_lock_0000000001''] \<and>
         release (Suc 0) scripted s1 = Some (Inr False, s1))"
  using
    release_spec [where s = "\<lparr>lock = demo, world = [], calls = []\<rparr>" and n = 0
      and zk = scripted]
    release_spec [where s = "\<lparr>lock = demo_held, world = [RDelete OK], calls = []\<rparr>"
      and n = 0 and m = 0 and zk = scripted and nd = "''0a1b_lock_0000000001''"]
  by (simp add: scripted_def demo_held_def demo_def init_def release_def inner_release_def
      client_delete_def generic_callback_OK)

text \<open>
  C10. When the delete issued by \<open>_inner_release\<close> raises, the body raises the same
  exception and the handle is left as it was: still acquired, with the same node name.
  The same holds for \<open>release\<close> as a whole, whatever number of invocations the executor
  makes before it lets a failure through.
\<close>

theorem release_failure_atomic:
  assumes "is_acquired (lock s)" and "node (lock s) = Name nd"
    and "client_delete zk (path (lock s) @ ''/'' @ nd) s = (Inl e, s1)"
  shows "inner_release zk s = (Inl e, s1) \<and> lock s1 = lock s \<and>
         is_acquired (lock s1) \<and> node (lock s1) = Name nd \<and>
         (\<forall>n e' s2. release n zk s = Some (Inl e', s2) \<longrightarrow> lock s2 = lock s)"
proof -
  from assms have r: "inner_release zk s = (Inl e, s1)"
    by (simp add: inner_release_def)
  then have "lock s1 = lock s"
    by (rule inner_release_failure_keeps_lock)
  with assms r show ?thesis
    by (auto dest: release_failure_keeps_lock)
qed

theorem release_failure_atomic_witness:
  "inner_release scripted \<lparr>lock = demo_held, world = [RDelete NOTEMPTY], calls = []\<rparr> =
     (Inl NotEmptyException,
      \<lparr>lock = demo_held, world = [], calls = [Delete ''/locks/demo/0a1b_lock_0000000001'']\<rparr>) \<and>
   is_acquired demo_held \<and> node demo_held = Name ''0a1b_lock_0000000001''"
  using release_failure_atomic [where s = "\<lparr>lock = demo_held, world = [RDelete NOTEMPTY], calls = []\<rparr>"
      and zk = scripted and nd = "''0a1b_lock_0000000001''" and e = NotEmptyException
      and ?s1.0 = "\<lparr>lock = demo_held, world = [],
        calls = [Delete ''/locks/demo/0a1b_lock_0000000001'']\<rparr>"]
  by (simp add: client_delete_def scripted_def demo_held_def demo_def init_def
      generic_callback_def err_to_exception_def)

section \<open>Listing and sorting\<close>

lemma find_from_portion:
  "sublist sub s \<Longrightarrow>
     int i \<le> find_from sub s i \<and>
     drop (nat (find_from sub s i - int i) + length sub) s = portion_after_marker sub s"
proof (induction s arbitrary: i)
  case Nil
  then show ?case by simp
next
  case (Cons c cs)
  show ?case
  proof (cases "prefix sub (c # cs)")
    case True
    then show ?thesis by simp
  next
    case False
    with Cons.prems have "sublist sub cs"
      by (simp add: sublist_Cons_right)
    from Cons.IH [OF this, of "Suc i"]
    have le: "int (Suc i) \<le> find_from sub cs (Suc i)"
      and dr: "drop (nat (find_from sub cs (Suc i) - int (Suc i)) + length sub) cs =
               portion_after_marker sub cs"
      by simp_all
    from le have "nat (find_from sub cs (Suc i) - int i) =
                  Suc (nat (find_from sub cs (Suc i) - int (Suc i)))"
      by simp
    with False le dr show ?thesis by simp
  qed
qed

lemma sort_key_of_portion:
  assumes "sublist LOCK_NAME c"
  shows "sort_key_of c = portion_after_marker LOCK_NAME c"
proof -
  from find_from_portion [OF assms, of 0]
  have le: "0 \<le> find_from LOCK_NAME c 0"
    and dr: "drop (nat (find_from LOCK_NAME c 0) + length LOCK_NAME) c =
             portion_after_marker LOCK_NAME c"
    by simp_all
  from le have "nat (find_from LOCK_NAME c 0 + int (length LOCK_NAME)) =
                nat (find_from LOCK_NAME c 0) + length LOCK_NAME"
    by (simp add: nat_add_distrib)
  with le dr show ?thesis
    by (simp add: sort_key_of_def slice_from_def py_find_def)
qed

text \<open>
  C5. When the listing succeeds and every listed name contains the marker \<open>_lock_\<close>,
  \<open>_get_sorted_children\<close> returns a permutation of the listing that is in ascending
  order of the portions following the marker.
\<close>

theorem get_sorted_children_spec:
  assumes "aget_children zk (path (lock s)) (world s) = ((OK, children), w)"
    and "\<forall>c \<in> set children. sublist LOCK_NAME c"
  shows "\<exists>sorted_children.
           get_sorted_children zk s =
             (Inr sorted_children, s\<lparr>world := w, calls := calls s @ [GetChildren (path (lock s))]\<rparr>) \<and>
           mset sorted_children = mset children \<and>
           sorted (map (portion_after_marker LOCK_NAME) sorted_children)"
proof -
  let ?cs = "sort_key sort_key_of children"
  have "map (portion_after_marker LOCK_NAME) ?cs = map sort_key_of ?cs"
    using assms(2) by (simp add: sort_key_of_portion)
  then have "sorted (map (portion_after_marker LOCK_NAME) ?cs)"
    by (simp only: sorted_sort_key)
  moreover have "get_sorted_children zk s =
      (Inr ?cs, s\<lparr>world := w, calls := calls s @ [GetChildren (path (lock s))]\<rparr>)"
    using assms(1)
    by (simp add: get_sorted_children_def client_get_children_def generic_callback_OK)
  ultimately show ?thesis by simp
qed

theorem get_sorted_children_spec_witness:
  "\<exists>sorted_children.
     get_sorted_children scripted
       \<lparr>lock = demo,
         world = [RChildren OK [''ff_lock_0000000002'', ''0a1b_lock_0000000003'',
                                ''c3_lock_0000000001'']],
         calls = []\<rparr> =
       (Inr sorted_children, \<lparr>lock = demo, world = [], calls = [GetChildren ''/locks/demo'']\<rparr>) \<and>
     sorted_children = [''c3_lock_0000000001'', ''ff_lock_0000000002'', ''0a1b_lock_0000000003''] \<and>
     mset sorted_children =
       mset [''ff_lock_0000000002'', ''0a1b_lock_0000000003'', ''c3_lock_0000000001''] \<and>
     sorted (map (portion_after_marker LOCK_NAME) sorted_children)"
  using get_sorted_children_spec [where zk = scripted
      and s = "\<lparr>lock = demo,
         world = [RChildren OK [''ff_lock_0000000002'', ''0a1b_lock_0000000003'',
                                ''c3_lock_0000000001'']],
         calls = []\<rparr>"
      and children = "[''ff_lock_0000000002'', ''0a1b_lock_0000000003'', ''c3_lock_0000000001'']"
      and w = "[]"]
  by (simp add: scripted_def demo_def init_def LOCK_NAME_def sublist_Cons_right
      get_sorted_children_def client_get_children_def generic_callback_OK
      sort_key_of_def slice_from_def py_find_def)

section \<open>Contenders\<close>

lemma client_get_lock [simp]: "lock (snd (client_get zk p s)) = lock s"
  by (simp add: client_get_def split: prod.splits)

lemma client_get_calls [simp]: "calls (snd (client_get zk p s)) = calls s @ [Get p]"
  by (simp add: client_get_def split: prod.splits)

lemma fetch_contenders_no_NoNode:
  "fst (fetch_contenders zk children acc s) \<noteq> Inl NoNodeException"
proof (induction children arbitrary: acc s)
  case Nil
  then show ?case by simp
next
  case (Cons c cs)
  then show ?case
    by (auto split: prod.splits sum.splits)
qed

lemma fetch_contenders_replies:
  assumes "\<forall>r \<in> set (get_replies zk children s). \<forall>e. r = Inl e \<longrightarrow> e = NoNodeException"
  shows "fst (fetch_contenders zk children acc s) =
           Inr (acc @ List.map_filter reply_data (get_replies zk children s)) \<and>
         lock (snd (fetch_contenders zk children acc s)) = lock s \<and>
         calls (snd (fetch_contenders zk children acc s)) =
           calls s @ map (\<lambda>c. Get (path (lock s) @ ''/'' @ c)) children"
  using assms
proof (induction children arbitrary: acc s)
  case Nil
  then show ?case by (simp add: List.map_filter_simps)
next
  case (Cons c cs)
  obtain r s1 where r: "client_get zk (path (lock s) @ ''/'' @ c) s = (r, s1)"
    by (cases "client_get zk (path (lock s) @ ''/'' @ c) s")
  then have s1: "lock s1 = lock s" "calls s1 = calls s @ [Get (path (lock s) @ ''/'' @ c)]"
    using client_get_lock [of zk "path (lock s) @ ''/'' @ c" s]
      client_get_calls [of zk "path (lock s) @ ''/'' @ c" s]
    by simp_all
  from Cons.prems r have rest:
    "\<forall>r \<in> set (get_replies zk cs s1). \<forall>e. r = Inl e \<longrightarrow> e = NoNodeException"
    and here: "\<forall>e. r = Inl e \<longrightarrow> e = NoNodeException"
    by simp_all
  show ?case
  proof (cases r)
    case (Inl e)
    with here have "e = NoNodeException" by simp
    with Inl r s1 Cons.IH [OF rest, of acc] show ?thesis
      by (simp add: List.map_filter_simps)
  next
    case (Inr v)
    obtain d st where v: "v = (d, st)" by (cases v)
    with Inr r s1 Cons.IH [OF rest, of "acc @ [d]"] show ?thesis
      by (simp add: List.map_filter_simps)
  qed
qed

text \<open>
  C8. \<open>get_contenders\<close> lists and sorts with \<open>_get_sorted_children\<close>, the operation the
  acquire loop uses, and issues one get per child in that order. A get that fails with
  \<open>NoNodeException\<close> never makes it raise that exception; and when every get either
  succeeds or fails with \<open>NoNodeException\<close>, it returns the data of the gets that
  succeeded, in the order of the children.
\<close>

theorem get_contenders_spec:
  assumes "get_sorted_children zk s = (Inr children, s1)"
  shows "fst (get_contenders zk s) \<noteq> Inl NoNodeException \<and>
         ((\<forall>r \<in> set (get_replies zk children s1). \<forall>e. r = Inl e \<longrightarrow> e = NoNodeException) \<longrightarrow>
            fst (get_contenders zk s) =
              Inr (List.map_filter reply_data (get_replies zk children s1)) \<and>
            calls (snd (get_contenders zk s)) =
              calls s1 @ map (\<lambda>c. Get (path (lock s1) @ ''/'' @ c)) children)"
  using assms fetch_contenders_no_NoNode [of zk children "[]" s1]
    fetch_contenders_replies [of zk children s1 "[]"]
  by (simp add: get_contenders_def)

theorem get_contenders_spec_witness:
  "fst (get_contenders scripted
     \<lparr>lock = demo,
       world = [RChildren OK [''ff_lock_0000000002'', ''0a1b_lock_0000000003'',
                              ''c3_lock_0000000001''],
                RGet OK ''C'' [], RGet NONODE [] [], RGet OK ''A'' []],
       calls = []\<rparr>) = Inr [''C'', ''A''] \<and>
   calls (snd (get_contenders scripted
     \<lparr>lock = demo,
       world = [RChildren OK [''ff_lock_0000000002'', ''0a1b_lock_0000000003'',
                              ''c3_lock_0000000001''],
                RGet OK ''C'' [], RGet NONODE [] [], RGet OK ''A'' []],
       calls = []\<rparr>)) =
     [GetChildren ''/locks/demo'', Get ''/locks/demo/c3_lock_0000000001'',
      Get ''/locks/demo/ff_lock_0000000002'', Get ''/locks/demo/0a1b_lock_0000000003'']"
  using get_contenders_spec [where zk = scripted
      and s = "\<lparr>lock = demo,
         world = [RChildren OK [''ff_lock_0000000002'', ''0a1b_lock_0000000003'',
                                ''c3_lock_0000000001''],
                  RGet OK ''C'' [], RGet NONODE [] [], RGet OK ''A'' []],
         calls = []\<rparr>"
      and children = "[''c3_lock_0000000001'', ''ff_lock_0000000002'', ''0a1b_lock_0000000003'']"
      and ?s1.0 = "\<lparr>lock = demo,
         world = [RGet OK ''C'' [], RGet NONODE [] [], RGet OK ''A'' []],
         calls = [GetChildren ''/locks/demo'']\<rparr>"]
  by (simp add: scripted_def demo_def init_def LOCK_NAME_def
      get_sorted_children_def client_get_children_def client_get_def generic_callback_def
      err_to_exception_def sort_key_of_def slice_from_def py_find_def List.map_filter_simps)

section \<open>What the client calls leave alone\<close>

lemma client_create_lock:
  "client_create zk p v e q s = (r, s') \<Longrightarrow> lock s' = lock s"
  by (auto simp: client_create_def split: prod.splits)

lemma client_delete_lock:
  "client_delete zk p s = (r, s') \<Longrightarrow> lock s' = lock s"
  by (auto simp: client_delete_def split: prod.splits)

lemma client_get_children_lock:
  "client_get_children zk p s = (r, s') \<Longrightarrow> lock s' = lock s"
  by (auto simp: client_get_children_def split: prod.splits)

lemma client_exists_lock:
  "client_exists zk p b s = (r, s') \<Longrightarrow> lock s' = lock s"
  by (auto simp: client_exists_def split: prod.splits)

lemma find_node_lock:
  assumes "find_node zk s = (r, s')"
  shows "lock s' = lock s"
proof -
  obtain r1 s1 where r1: "client_get_children zk (path (lock s)) s = (r1, s1)"
    by (cases "client_get_children zk (path (lock s)) s")
  then have "lock s1 = lock s" by (rule client_get_children_lock)
  with assms r1 show ?thesis by (auto simp: find_node_def split: sum.splits)
qed

lemma get_sorted_children_lock:
  assumes "get_sorted_children zk s = (r, s')"
  shows "lock s' = lock s"
proof -
  obtain r1 s1 where r1: "client_get_children zk (path (lock s)) s = (r1, s1)"
    by (cases "client_get_children zk (path (lock s)) s")
  then have "lock s1 = lock s" by (rule client_get_children_lock)
  with assms r1 show ?thesis by (auto simp: get_sorted_children_def split: sum.splits)
qed

lemma create_node_lock:
  assumes "create_node zk s = (r, s')"
  shows "lock s' = lock s"
proof -
  obtain r1 s1 where
    r1: "client_create zk (create_path (lock s)) (data (lock s)) True True s = (r1, s1)"
    by (cases "client_create zk (create_path (lock s)) (data (lock s)) True True s")
  then have "lock s1 = lock s" by (rule client_create_lock)
  with assms r1 show ?thesis by (auto simp: create_node_def split: sum.splits)
qed

lemma best_effort_cleanup_lock: "lock (best_effort_cleanup zk s) = lock s"
proof -
  obtain r s1 where r: "find_node zk s = (r, s1)"
    by (cases "find_node zk s")
  then have l1: "lock s1 = lock s" by (rule find_node_lock)
  show ?thesis
  proof (cases r)
    case (Inl e)
    with r l1 show ?thesis by (simp add: best_effort_cleanup_def)
  next
    case (Inr found)
    show ?thesis
    proof (cases found)
      case None
      with r Inr l1 show ?thesis by (simp add: best_effort_cleanup_def)
    next
      case (Some n)
      obtain r2 s2 where r2: "client_delete zk (path (lock s1) @ ''/'' @ n) s1 = (r2, s2)"
        by (cases "client_delete zk (path (lock s1) @ ''/'' @ n) s1")
      then have "lock s2 = lock s1" by (rule client_delete_lock)
      with r Inr Some r2 l1 show ?thesis by (simp add: best_effort_cleanup_def)
    qed
  qed
qed

lemma acquire_pass_lock:
  assumes "acquire_pass zk nd s = (p, s')"
  shows "lock s' = lock s"
proof -
  obtain r s1 where r: "get_sorted_children zk s = (r, s1)"
    by (cases "get_sorted_children zk s")
  then have l1: "lock s1 = lock s" by (rule get_sorted_children_lock)
  show ?thesis
  proof (cases r)
    case (Inl e)
    with assms r l1 show ?thesis by (auto simp: acquire_pass_def)
  next
    case (Inr children)
    show ?thesis
    proof (cases "index_of children nd")
      case None
      with assms r Inr l1 show ?thesis by (auto simp: acquire_pass_def)
    next
      case (Some i)
      let ?p = "path (lock s1) @ ''/'' @ children ! (i - 1)"
      obtain r2 s2 where r2: "client_exists zk ?p True s1 = (r2, s2)"
        by (cases "client_exists zk ?p True s1")
      then have "lock s2 = lock s1" by (rule client_exists_lock)
      with assms r Inr Some r2 l1 show ?thesis
        by (auto simp: acquire_pass_def split: sum.splits option.splits if_splits)
    qed
  qed
qed

lemma acquire_loop_lock:
  "acquire_loop k zk nd s = Some (r, s') \<Longrightarrow> lock s' = lock s"
proof (induction k arbitrary: s)
  case 0
  then show ?case by simp
next
  case (Suc k)
  obtain p s1 where p: "acquire_pass zk nd s = (p, s1)"
    by (cases "acquire_pass zk nd s")
  then have l1: "lock s1 = lock s" by (rule acquire_pass_lock)
  show ?case
  proof (cases p)
    case (Return b)
    with Suc.prems p have "s' = s1" by simp
    with l1 show ?thesis by simp
  next
    case (Raise e)
    with Suc.prems p have "s' = s1" by simp
    with l1 show ?thesis by simp
  next
    case Again
    with Suc.prems p have "acquire_loop k zk nd s1 = Some (r, s')" by simp
    then have "lock s' = lock s1" by (rule Suc.IH)
    with l1 show ?thesis by simp
  next
    case Blocked
    with Suc.prems p show ?thesis by simp
  qed
qed

lemma acquire_node_create_tried:
  assumes "acquire_node zk s = (r, s')"
  shows "create_tried (lock s')"
proof (cases "create_tried (lock s)")
  case True
  obtain r1 s1 where r1: "find_node zk s = (r1, s1)"
    by (cases "find_node zk s")
  then have l1: "lock s1 = lock s" by (rule find_node_lock)
  obtain r2 s2 where r2: "create_node zk s1 = (r2, s2)"
    by (cases "create_node zk s1")
  then have "lock s2 = lock s1" by (rule create_node_lock)
  with assms True r1 r2 l1 show ?thesis
    by (auto simp: acquire_node_def split: sum.splits option.splits if_splits)
next
  case False
  let ?s1 = "s\<lparr>lock := (lock s)\<lparr>create_tried := True\<rparr>\<rparr>"
  obtain r2 s2 where r2: "create_node zk ?s1 = (r2, s2)"
    by (cases "create_node zk ?s1")
  then have "lock s2 = lock ?s1" by (rule create_node_lock)
  with assms False r2 show ?thesis
    by (auto simp: acquire_node_def split: sum.splits)
qed

lemma inner_acquire_create_tried:
  assumes "inner_acquire k zk s = Some (r, s')"
  shows "create_tried (lock s')"
proof -
  obtain r1 s1 where r1: "acquire_node zk s = (r1, s1)"
    by (cases "acquire_node zk s")
  then have c: "create_tried (lock s1)" by (rule acquire_node_create_tried)
  show ?thesis
  proof (cases r1)
    case (Inl e)
    with assms r1 c show ?thesis by (auto simp: inner_acquire_def)
  next
    case (Inr nd)
    with assms r1 have "acquire_loop k zk nd s1 = Some (r, s')"
      by (simp add: inner_acquire_def)
    then have "lock s' = lock s1" by (rule acquire_loop_lock)
    with c show ?thesis by simp
  qed
qed

section \<open>The retry executor\<close>

lemma retry_invariant:
  assumes "\<And>s r s'. func s = Some (r, s') \<Longrightarrow> P s \<Longrightarrow> P s'"
  shows "retry n func s = Some (r, s') \<Longrightarrow> P s \<Longrightarrow> P s'"
proof (induction n arbitrary: s)
  case 0
  then show ?case by simp
next
  case (Suc n)
  from Suc.prems(1) obtain r1 s1 where f: "func s = Some (r1, s1)"
    by (cases "func s") auto
  with assms Suc.prems(2) have p1: "P s1" by blast
  show ?case
  proof (cases r1)
    case (Inr v)
    with Suc.prems(1) f p1 show ?thesis by auto
  next
    case (Inl e)
    show ?thesis
    proof (cases "retryable e")
      case True
      with Suc.prems(1) f Inl have "retry n func s1 = Some (r, s')" by simp
      then show ?thesis using p1 by (rule Suc.IH)
    next
      case False
      with Suc.prems(1) f Inl p1 show ?thesis by auto
    qed
  qed
qed

lemma retry_Some_from_func:
  "retry n func s = Some (r, s') \<Longrightarrow> \<exists>s0. func s0 = Some (r, s')"
proof (induction n arbitrary: s)
  case 0
  then show ?case by simp
next
  case (Suc n)
  from Suc.prems obtain r1 s1 where f: "func s = Some (r1, s1)"
    by (cases "func s") auto
  show ?case
  proof (cases r1)
    case (Inr v)
    with Suc.prems f show ?thesis by auto
  next
    case (Inl e)
    show ?thesis
    proof (cases "retryable e")
      case True
      with Suc.prems f Inl have "retry n func s1 = Some (r, s')" by simp
      then show ?thesis by (rule Suc.IH)
    next
      case False
      with Suc.prems f Inl show ?thesis by auto
    qed
  qed
qed


section \<open>create_tried\<close>

lemma acquire_from_retry:
  assumes "acquire n k zk s = Some (r, s')"
  shows "\<exists>r1 s1. retry n (inner_acquire k zk) s = Some (r1, s1) \<and>
           (case r1 of
              Inr b \<Rightarrow> r = Inr () \<and> s' = s1\<lparr>lock := (lock s1)\<lparr>is_acquired := True\<rparr>\<rparr>
            | Inl e \<Rightarrow> r = Inl e \<and> s' = best_effort_cleanup zk s1)"
proof (cases "retry n (inner_acquire k zk) s")
  case None
  with assms show ?thesis by (simp add: acquire_def)
next
  case (Some x)
  obtain r1 s1 where x: "x = (r1, s1)" by (cases x)
  show ?thesis
  proof (cases r1)
    case (Inl e)
    with assms Some x show ?thesis by (simp add: acquire_def)
  next
    case (Inr b)
    with assms Some x show ?thesis by (simp add: acquire_def)
  qed
qed

lemma acquire_create_tried:
  assumes "acquire n k zk s = Some (r, s')"
  shows "create_tried (lock s')"
proof -
  from acquire_from_retry [OF assms] obtain r1 s1 where
    r1: "retry n (inner_acquire k zk) s = Some (r1, s1)" and
    c: "case r1 of
          Inr b \<Rightarrow> r = Inr () \<and> s' = s1\<lparr>lock := (lock s1)\<lparr>is_acquired := True\<rparr>\<rparr>
        | Inl e \<Rightarrow> r = Inl e \<and> s' = best_effort_cleanup zk s1"
    by blast
  from r1 have "\<exists>s0. inner_acquire k zk s0 = Some (r1, s1)"
    by (rule retry_Some_from_func)
  then obtain s0 where "inner_acquire k zk s0 = Some (r1, s1)" ..
  then have t: "create_tried (lock s1)" by (rule inner_acquire_create_tried)
  show ?thesis
  proof (cases r1)
    case (Inl e)
    with c t show ?thesis by (simp add: best_effort_cleanup_lock)
  next
    case (Inr b)
    with c t show ?thesis by simp
  qed
qed

lemma inner_release_create_tried:
  assumes "inner_release zk s = (r, s')" and c: "create_tried (lock s)"
  shows "create_tried (lock s')"
proof (cases "node (lock s)")
  case (Name nd)
  obtain r1 s1 where r1: "client_delete zk (path (lock s) @ ''/'' @ nd) s = (r1, s1)"
    by (cases "client_delete zk (path (lock s) @ ''/'' @ nd) s")
  then have "lock s1 = lock s" by (rule client_delete_lock)
  with assms r1 Name show ?thesis
    by (auto simp: inner_release_def split: sum.splits if_splits)
qed (use assms in \<open>auto simp: inner_release_def split: if_splits\<close>)

lemma release_create_tried:
  assumes "release n zk s = Some (r, s')" and "create_tried (lock s)"
  shows "create_tried (lock s')"
proof -
  have step: "create_tried (lock s')"
    if "Some (inner_release zk s) = Some (r, s')" and "create_tried (lock s)" for s r s'
  proof -
    from that(1) have "inner_release zk s = (r, s')" by simp
    then show ?thesis using that(2) by (rule inner_release_create_tried)
  qed
  from assms(1) have "retry n (\<lambda>s. Some (inner_release zk s)) s = Some (r, s')"
    by (simp add: release_def)
  from retry_invariant [where P = "\<lambda>s. create_tried (lock s)"
      and func = "\<lambda>s. Some (inner_release zk s)", OF step this assms(2)]
  show ?thesis .
qed

lemma client_get_lockD:
  "client_get zk p s = (r, s') \<Longrightarrow> lock s' = lock s"
  by (auto simp: client_get_def split: prod.splits)

lemma fetch_contenders_lock:
  "fetch_contenders zk children acc s = (r, s') \<Longrightarrow> lock s' = lock s"
proof (induction children arbitrary: acc s)
  case Nil
  then show ?case by simp
next
  case (Cons c cs)
  obtain r1 s1 where r1: "client_get zk (path (lock s) @ ''/'' @ c) s = (r1, s1)"
    by (cases "client_get zk (path (lock s) @ ''/'' @ c) s")
  then have l1: "lock s1 = lock s" by (rule client_get_lockD)
  show ?case
  proof (cases r1)
    case (Inl e)
    show ?thesis
    proof (cases "e = NoNodeException")
      case True
      with Cons.prems r1 Inl have "fetch_contenders zk cs acc s1 = (r, s')" by simp
      then have "lock s' = lock s1" by (rule Cons.IH)
      with l1 show ?thesis by simp
    next
      case False
      with Cons.prems r1 Inl l1 show ?thesis by auto
    qed
  next
    case (Inr v)
    obtain d st where v: "v = (d, st)" by (cases v)
    with Cons.prems r1 Inr have "fetch_contenders zk cs (acc @ [d]) s1 = (r, s')" by simp
    then have "lock s' = lock s1" by (rule Cons.IH)
    with l1 show ?thesis by simp
  qed
qed

lemma get_contenders_lock:
  assumes "get_contenders zk s = (r, s')"
  shows "lock s' = lock s"
proof -
  obtain r1 s1 where r1: "get_sorted_children zk s = (r1, s1)"
    by (cases "get_sorted_children zk s")
  then have l1: "lock s1 = lock s" by (rule get_sorted_children_lock)
  show ?thesis
  proof (cases r1)
    case (Inl e)
    with assms r1 l1 show ?thesis by (auto simp: get_contenders_def)
  next
    case (Inr children)
    with assms r1 have "fetch_contenders zk children [] s1 = (r, s')"
      by (simp add: get_contenders_def)
    then have "lock s' = lock s1" by (rule fetch_contenders_lock)
    with l1 show ?thesis by simp
  qed
qed

text \<open>
  C9. \<open>create_tried\<close> is false on a fresh handle, and no operation of the handle takes it
  from true to false: the retried acquire body and its parts, the cleanup, the release
  body, \<open>get_contenders\<close>, and \<open>acquire\<close> and \<open>release\<close> whenever they return.
\<close>

theorem create_tried_monotonic:
  "\<not> create_tried (init p contender_name uuid_hex) \<and>
   (create_tried (lock s) \<longrightarrow>
      create_tried (lock (snd (acquire_node zk s))) \<and>
      create_tried (lock (snd (acquire_pass zk nd s))) \<and>
      create_tried (lock (snd (find_node zk s))) \<and>
      create_tried (lock (snd (get_sorted_children zk s))) \<and>
      create_tried (lock (best_effort_cleanup zk s)) \<and>
      create_tried (lock (snd (inner_release zk s))) \<and>
      create_tried (lock (snd (get_contenders zk s))) \<and>
      (\<forall>k r s'. inner_acquire k zk s = Some (r, s') \<longrightarrow> create_tried (lock s')) \<and>
      (\<forall>n k r s'. acquire n k zk s = Some (r, s') \<longrightarrow> create_tried (lock s')) \<and>
      (\<forall>n r s'. release n zk s = Some (r, s') \<longrightarrow> create_tried (lock s')))"
proof (intro conjI impI allI)
  show "\<not> create_tried (init p contender_name uuid_hex)"
    by (simp add: init_def)
next
  show "create_tried (lock (snd (acquire_node zk s)))"
    by (rule acquire_node_create_tried [OF prod.collapse [symmetric]])
next
  assume c: "create_tried (lock s)"
  then show "create_tried (lock (snd (acquire_pass zk nd s)))"
    by (simp add: acquire_pass_lock [OF prod.collapse [symmetric]])
  from c show "create_tried (lock (snd (find_node zk s)))"
    by (simp add: find_node_lock [OF prod.collapse [symmetric]])
  from c show "create_tried (lock (snd (get_sorted_children zk s)))"
    by (simp add: get_sorted_children_lock [OF prod.collapse [symmetric]])
  from c show "create_tried (lock (best_effort_cleanup zk s))"
    by (simp add: best_effort_cleanup_lock)
  from inner_release_create_tried [OF prod.collapse [symmetric] c]
  show "create_tried (lock (snd (inner_release zk s)))" .
  from c show "create_tried (lock (snd (get_contenders zk s)))"
    by (simp add: get_contenders_lock [OF prod.collapse [symmetric]])
next
  fix k r s'
  assume "inner_acquire k zk s = Some (r, s')"
  then show "create_tried (lock s')" by (rule inner_acquire_create_tried)
next
  fix n k r s'
  assume "acquire n k zk s = Some (r, s')"
  then show "create_tried (lock s')" by (rule acquire_create_tried)
next
  fix n r s'
  assume "create_tried (lock s)" and "release n zk s = Some (r, s')"
  then show "create_tried (lock s')" by (rule release_create_tried [rotated])
qed


theorem create_tried_monotonic_witness:
  "\<not> create_tried demo \<and> create_tried demo_held \<and>
   create_tried (lock (snd (acquire_node scripted
     \<lparr>lock = demo_held, world = [RChildren OK [''0a1b_lock_0000000001'']], calls = []\<rparr>))) \<and>
   create_tried (lock (snd (inner_release scripted
     \<lparr>lock = demo_held, world = [RChildren OK [''0a1b_lock_0000000001'']], calls = []\<rparr>))) \<and>
   create_tried (lock (best_effort_cleanup scripted
     \<lparr>lock = demo_held, world = [RChildren OK [''0a1b_lock_0000000001'']], calls = []\<rparr>))"
  using create_tried_monotonic [where p = "''/locks/demo''" and contender_name = "Some ''A''"
      and uuid_hex = "''0a1b''" and zk = scripted
      and s = "\<lparr>lock = demo_held, world = [RChildren OK [''0a1b_lock_0000000001'']], calls = []\<rparr>"]
  by (simp add: demo_def demo_held_def)

section \<open>The first step of the acquire body\<close>

lemma slice_from_nonneg: "slice_from s (int n + 1) = drop (n + 1) s"
  by (simp add: slice_from_def nat_add_distrib)

lemma client_get_children_reply:
  "aget_children zk p (world s) = ((code, children), w) \<Longrightarrow>
   client_get_children zk p s =
     (generic_callback code children, s\<lparr>world := w, calls := calls s @ [GetChildren p]\<rparr>)"
  by (simp add: client_get_children_def)

lemma find_node_OK:
  assumes "aget_children zk (path (lock s)) (world s) = ((OK, children), w)"
  shows "find_node zk s =
    (Inr (List.find (prefix (prefix_l (lock s))) children),
     s\<lparr>world := w, calls := calls s @ [GetChildren (path (lock s))]\<rparr>)"
  by (simp add: find_node_def client_get_children_reply [OF assms] generic_callback_OK)

lemma find_node_Inr:
  assumes "find_node zk s = (Inr found, s1)"
  shows "\<exists>children w. aget_children zk (path (lock s)) (world s) = ((OK, children), w) \<and>
           found = List.find (prefix (prefix_l (lock s))) children \<and>
           s1 = s\<lparr>world := w, calls := calls s @ [GetChildren (path (lock s))]\<rparr>"
proof -
  obtain code children w where a: "aget_children zk (path (lock s)) (world s) = ((code, children), w)"
    by (cases "aget_children zk (path (lock s)) (world s)") auto
  show ?thesis
  proof (cases "code = OK")
    case True
    with a assms find_node_OK [of zk s children w] show ?thesis by simp
  next
    case False
    then obtain e where "generic_callback code children = Inl e"
      by (cases "generic_callback code children") (simp_all add: generic_callback_Inr)
    with a assms show ?thesis
      by (simp add: find_node_def client_get_children_reply [OF a])
  qed
qed

lemma create_node_calls:
  "calls (snd (create_node zk s)) =
     calls s @ [Create (create_path (lock s)) (data (lock s)) True True]"
  by (simp add: create_node_def client_create_def split: prod.splits sum.splits)

lemma create_node_Inr:
  assumes "create_node zk s = (Inr n, s')"
  shows "\<exists>real w'.
           acreate zk (create_path (lock s)) (data (lock s)) True True (world s) = ((OK, real), w') \<and>
           n = drop (length (path (lock s)) + 1) real"
proof -
  obtain code real w' where
    a: "acreate zk (create_path (lock s)) (data (lock s)) True True (world s) = ((code, real), w')"
    by (cases "acreate zk (create_path (lock s)) (data (lock s)) True True (world s)") auto
  show ?thesis
  proof (cases "generic_callback code real")
    case (Inl e)
    with a assms show ?thesis by (simp add: create_node_def client_create_def)
  next
    case (Inr y)
    then have "code = OK" "y = real" by (simp_all add: generic_callback_Inr)
    with a assms Inr show ?thesis
      by (auto simp: create_node_def client_create_def slice_from_nonneg)
  qed
qed

lemma acquire_node_fresh:
  assumes "\<not> create_tried (lock s)"
  shows "acquire_node zk s =
    (case create_node zk (s\<lparr>lock := (lock s)\<lparr>create_tried := True\<rparr>\<rparr>) of
       (Inl e, s2) \<Rightarrow> (Inl e, s2)
     | (Inr n, s2) \<Rightarrow> (Inr n, s2\<lparr>lock := (lock s2)\<lparr>node := Name n\<rparr>\<rparr>))"
  using assms by (simp add: acquire_node_def)

lemma acquire_node_retried:
  assumes "create_tried (lock s)" and "find_node zk s = (Inr found, s1)"
  shows "acquire_node zk s =
    (case (case found of
             None \<Rightarrow> create_node zk s1
           | Some n \<Rightarrow> if n = [] then create_node zk s1 else (Inr n, s1)) of
       (Inl e, s2) \<Rightarrow> (Inl e, s2)
     | (Inr n, s2) \<Rightarrow> (Inr n, s2\<lparr>lock := (lock s2)\<lparr>node := Name n\<rparr>\<rparr>))"
  using assms by (simp add: acquire_node_def)

lemma acquire_node_fresh_calls:
  assumes "\<not> create_tried (lock s)"
  shows "calls (snd (acquire_node zk s)) =
           calls s @ [Create (create_path (lock s)) (data (lock s)) True True]"
proof -
  let ?s1 = "s\<lparr>lock := (lock s)\<lparr>create_tried := True\<rparr>\<rparr>"
  obtain r s2 where r: "create_node zk ?s1 = (r, s2)"
    by (cases "create_node zk ?s1")
  with create_node_calls [of zk ?s1]
  have "calls s2 = calls s @ [Create (create_path (lock s)) (data (lock s)) True True]"
    by simp
  with r show ?thesis
    by (cases r) (simp_all add: acquire_node_fresh [OF assms])
qed

lemma acquire_node_retried_calls:
  assumes t: "create_tried (lock s)" and ne: "prefix_l (lock s) \<noteq> []"
    and a: "aget_children zk (path (lock s)) (world s) = ((OK, children), w)"
  shows "calls (snd (acquire_node zk s)) =
           calls s @ [GetChildren (path (lock s))] @
           (if \<exists>c \<in> set children. prefix (prefix_l (lock s)) c then []
            else [Create (create_path (lock s)) (data (lock s)) True True])"
proof -
  let ?s1 = "s\<lparr>world := w, calls := calls s @ [GetChildren (path (lock s))]\<rparr>"
  let ?found = "List.find (prefix (prefix_l (lock s))) children"
  have f: "find_node zk s = (Inr ?found, ?s1)"
    by (rule find_node_OK [OF a])
  show ?thesis
  proof (cases ?found)
    case None
    then have no: "\<not> (\<exists>c \<in> set children. prefix (prefix_l (lock s)) c)"
      by (simp add: find_None_iff)
    obtain r s2 where r: "create_node zk ?s1 = (r, s2)"
      by (cases "create_node zk ?s1")
    with create_node_calls [of zk ?s1]
    have "calls s2 = calls s @ [GetChildren (path (lock s)),
        Create (create_path (lock s)) (data (lock s)) True True]"
      by simp
    with r None no show ?thesis
      by (cases r) (simp_all add: acquire_node_retried [OF t f])
  next
    case (Some n)
    then have "prefix (prefix_l (lock s)) n" and "n \<in> set children"
      by (auto simp: find_Some_iff in_set_conv_nth)
    with ne have "n \<noteq> []" and "\<exists>c \<in> set children. prefix (prefix_l (lock s)) c"
      by auto
    with Some show ?thesis
      by (simp add: acquire_node_retried [OF t f])
  qed
qed

lemma acquire_node_Inr:
  assumes "acquire_node zk s = (Inr n, s')"
  shows "node (lock s') = Name n \<and>
     ((create_tried (lock s) \<and>
       (\<exists>children w. aget_children zk (path (lock s)) (world s) = ((OK, children), w) \<and>
          List.find (prefix (prefix_l (lock s))) children = Some n)) \<or>
      (\<exists>real w w'.
          acreate zk (create_path (lock s)) (data (lock s)) True True w = ((OK, real), w') \<and>
          n = drop (length (path (lock s)) + 1) real))"
proof (cases "create_tried (lock s)")
  case False
  let ?s1 = "s\<lparr>lock := (lock s)\<lparr>create_tried := True\<rparr>\<rparr>"
  obtain r s2 where r: "create_node zk ?s1 = (r, s2)"
    by (cases "create_node zk ?s1")
  show ?thesis
  proof (cases r)
    case (Inl e)
    with assms r show ?thesis by (simp add: acquire_node_fresh [OF False])
  next
    case (Inr m)
    with assms r have eq: "m = n" "s' = s2\<lparr>lock := (lock s2)\<lparr>node := Name n\<rparr>\<rparr>"
      by (auto simp: acquire_node_fresh [OF False])
    from r Inr eq create_node_Inr [of zk ?s1 n s2] obtain real w' where
      "acreate zk (create_path (lock s)) (data (lock s)) True True (world s) = ((OK, real), w')"
      "n = drop (length (path (lock s)) + 1) real"
      by auto
    then have "\<exists>real w w'.
        acreate zk (create_path (lock s)) (data (lock s)) True True w = ((OK, real), w') \<and>
        n = drop (length (path (lock s)) + 1) real"
      by blast
    with eq show ?thesis by simp
  qed
next
  case True
  obtain r1 s1 where r1: "find_node zk s = (r1, s1)"
    by (cases "find_node zk s")
  show ?thesis
  proof (cases r1)
    case (Inl e)
    with assms True r1 show ?thesis by (simp add: acquire_node_def)
  next
    case (Inr found)
    with r1 have f: "find_node zk s = (Inr found, s1)" by simp
    from find_node_Inr [OF f] obtain children w where
      a: "aget_children zk (path (lock s)) (world s) = ((OK, children), w)" and
      fd: "found = List.find (prefix (prefix_l (lock s))) children" and
      s1: "s1 = s\<lparr>world := w, calls := calls s @ [GetChildren (path (lock s))]\<rparr>"
      by blast
    have created: ?thesis if c: "create_node zk s1 = (r, s2)"
      and res: "acquire_node zk s =
        (case (r, s2) of (Inl e, s2) \<Rightarrow> (Inl e, s2)
         | (Inr n, s2) \<Rightarrow> (Inr n, s2\<lparr>lock := (lock s2)\<lparr>node := Name n\<rparr>\<rparr>))" for r s2
    proof (cases r)
      case (Inl e)
      with assms res show ?thesis by simp
    next
      case (Inr m)
      with assms res have eq: "m = n" "s' = s2\<lparr>lock := (lock s2)\<lparr>node := Name n\<rparr>\<rparr>"
        by auto
      from c Inr eq create_node_Inr [of zk s1 n s2] s1 obtain real w' where
        "acreate zk (create_path (lock s)) (data (lock s)) True True w = ((OK, real), w')"
        "n = drop (length (path (lock s)) + 1) real"
        by auto
      then have "\<exists>real w w'.
          acreate zk (create_path (lock s)) (data (lock s)) True True w = ((OK, real), w') \<and>
          n = drop (length (path (lock s)) + 1) real"
        by blast
      with eq show ?thesis by simp
    qed
    show ?thesis
    proof (cases found)
      case None
      obtain r s2 where c: "create_node zk s1 = (r, s2)"
        by (cases "create_node zk s1")
      with None show ?thesis
        by (intro created [OF c]) (simp add: acquire_node_retried [OF True f])
    next
      case (Some m)
      show ?thesis
      proof (cases "m = []")
        case True
        obtain r s2 where c: "create_node zk s1 = (r, s2)"
          by (cases "create_node zk s1")
        with Some True show ?thesis
          by (intro created [OF c]) (simp add: acquire_node_retried [OF \<open>create_tried (lock s)\<close> f])
      next
        case False
        with assms Some have "m = n" "s' = s1\<lparr>lock := (lock s1)\<lparr>node := Name n\<rparr>\<rparr>"
          by (auto simp: acquire_node_retried [OF True f])
        with Some fd a have "\<exists>children w.
            aget_children zk (path (lock s)) (world s) = ((OK, children), w) \<and>
            List.find (prefix (prefix_l (lock s))) children = Some n"
          by auto
        with \<open>s' = s1\<lparr>lock := (lock s1)\<lparr>node := Name n\<rparr>\<rparr>\<close> \<open>create_tried (lock s)\<close>
        show ?thesis by simp
      qed
    qed
  qed
qed

lemma generic_callback_map:
  "(case generic_callback code x of Inl e \<Rightarrow> Inl e | Inr y \<Rightarrow> Inr (f y)) =
     generic_callback code (f x)"
  by (simp add: generic_callback_def split: option.splits)

lemma create_node_reply:
  assumes "acreate zk (create_path (lock s)) (data (lock s)) True True (world s) =
             ((code, real), w)"
  shows "create_node zk s =
    (generic_callback code (drop (length (path (lock s)) + 1) real),
     s\<lparr>world := w,
       calls := calls s @ [Create (create_path (lock s)) (data (lock s)) True True]\<rparr>)"
proof (cases "code = OK")
  case True
  with assms show ?thesis
    by (simp add: create_node_def client_create_def generic_callback_OK slice_from_nonneg)
next
  case False
  with assms show ?thesis
    by (simp add: create_node_def client_create_def generic_callback_def split: option.splits)
qed

lemma generic_callback_err:
  "code \<noteq> OK \<Longrightarrow>
   generic_callback code x =
     Inl (case err_to_exception code of Some exc \<Rightarrow> exc | None \<Rightarrow> GenericException)"
  by (simp add: generic_callback_def split: option.splits)

lemma acquire_node_fresh_reply:
  assumes t: "\<not> create_tried (lock s)"
    and a: "acreate zk (create_path (lock s)) (data (lock s)) True True (world s) =
             ((code, real), w)"
  shows "acquire_node zk s =
    (generic_callback code (drop (length (path (lock s)) + 1) real),
     s\<lparr>lock := (lock s)\<lparr>create_tried := True,
                 node := (if code = OK then Name (drop (length (path (lock s)) + 1) real)
                          else node (lock s))\<rparr>,
       world := w,
       calls := calls s @ [Create (create_path (lock s)) (data (lock s)) True True]\<rparr>)"
proof -
  let ?s1 = "s\<lparr>lock := (lock s)\<lparr>create_tried := True\<rparr>\<rparr>"
  let ?n = "drop (length (path (lock s)) + 1) real"
  from a have "acreate zk (create_path (lock ?s1)) (data (lock ?s1)) True True (world ?s1) =
      ((code, real), w)"
    by simp
  from create_node_reply [OF this]
  have c: "create_node zk ?s1 =
      (generic_callback code ?n,
       ?s1\<lparr>world := w,
          calls := calls s @ [Create (create_path (lock s)) (data (lock s)) True True]\<rparr>)"
    by simp
  show ?thesis
  proof (cases "code = OK")
    case True
    with c show ?thesis by (simp add: acquire_node_fresh [OF t] generic_callback_OK)
  next
    case False
    with c show ?thesis by (simp add: acquire_node_fresh [OF t] generic_callback_err)
  qed
qed

lemma find_node_reply:
  assumes "aget_children zk (path (lock s)) (world s) = ((code, children), w)"
  shows "find_node zk s =
    (generic_callback code (List.find (prefix (prefix_l (lock s))) children),
     s\<lparr>world := w, calls := calls s @ [GetChildren (path (lock s))]\<rparr>)"
  by (cases "code = OK")
    (simp_all add: find_node_def client_get_children_reply [OF assms] generic_callback_OK
      generic_callback_err)

lemma acquire_node_listing_fails:
  assumes t: "create_tried (lock s)"
    and a: "aget_children zk (path (lock s)) (world s) = ((code, children), w)"
    and c: "code \<noteq> OK"
  shows "\<exists>e. acquire_node zk s =
    (Inl e, s\<lparr>world := w, calls := calls s @ [GetChildren (path (lock s))]\<rparr>)"
  using t c by (simp add: acquire_node_def find_node_reply [OF a] generic_callback_err)

lemma acquire_node_found:
  assumes t: "create_tried (lock s)" and ne: "prefix_l (lock s) \<noteq> []"
    and a: "aget_children zk (path (lock s)) (world s) = ((OK, children), w)"
    and f: "List.find (prefix (prefix_l (lock s))) children = Some n"
  shows "acquire_node zk s =
    (Inr n, s\<lparr>lock := (lock s)\<lparr>node := Name n\<rparr>, world := w,
              calls := calls s @ [GetChildren (path (lock s))]\<rparr>)"
proof -
  from f have "prefix (prefix_l (lock s)) n" by (auto simp: find_Some_iff)
  with ne have "n \<noteq> []" by auto
  with f show ?thesis
    by (simp add: acquire_node_retried [OF t find_node_OK [OF a]])
qed

lemma acquire_node_not_found:
  assumes t: "create_tried (lock s)"
    and a: "aget_children zk (path (lock s)) (world s) = ((OK, children), w1)"
    and f: "\<not> (\<exists>c \<in> set children. prefix (prefix_l (lock s)) c)"
    and c: "acreate zk (create_path (lock s)) (data (lock s)) True True w1 = ((code, real), w2)"
  shows "acquire_node zk s =
    (generic_callback code (drop (length (path (lock s)) + 1) real),
     s\<lparr>lock := (lock s)\<lparr>node := (if code = OK
                                  then Name (drop (length (path (lock s)) + 1) real)
                                  else node (lock s))\<rparr>,
       world := w2,
       calls := calls s @ [GetChildren (path (lock s)),
                  Create (create_path (lock s)) (data (lock s)) True True]\<rparr>)"
proof -
  let ?s1 = "s\<lparr>world := w1, calls := calls s @ [GetChildren (path (lock s))]\<rparr>"
  let ?n = "drop (length (path (lock s)) + 1) real"
  from f have none: "List.find (prefix (prefix_l (lock s))) children = None"
    by (simp add: find_None_iff)
  from c have "acreate zk (create_path (lock ?s1)) (data (lock ?s1)) True True (world ?s1) =
      ((code, real), w2)"
    by simp
  from create_node_reply [OF this]
  have cn: "create_node zk ?s1 =
      (generic_callback code ?n,
       ?s1\<lparr>world := w2,
          calls := calls s @ [GetChildren (path (lock s)),
            Create (create_path (lock s)) (data (lock s)) True True]\<rparr>)"
    by simp
  have fn: "find_node zk s = (Inr None, ?s1)"
    using find_node_OK [OF a] none by simp
  show ?thesis
  proof (cases "code = OK")
    case True
    with cn show ?thesis by (simp add: acquire_node_retried [OF t fn] generic_callback_OK)
  next
    case False
    with cn show ?thesis by (simp add: acquire_node_retried [OF t fn] generic_callback_err)
  qed
qed

text \<open>
  C3. The first step of the retried acquire body, with the state it leaves. When
  \<open>create_tried\<close> is false, the only call is the create of the ephemeral, sequential node
  at \<open>create_path\<close>, in the world the step started in, and \<open>create_tried\<close> is true
  afterwards whatever the create answers. When \<open>create_tried\<close> is true, the children are
  listed first: if the listing fails, the step raises and no create is issued; if a
  listed child starts with the handle's prefix, that child is the node and no create is
  issued; if none does, the create is issued in the world the listing has left. So, for a
  handle with a non-empty prefix, as \<open>__init__\<close> builds it, the create is issued exactly
  when the listing succeeds and finds no child with the prefix. Whenever the step
  completes, \<open>node\<close> holds the name it yields: the child found, or the created path
  without the parent's path and the slash.
\<close>

theorem acquire_node_spec:
  "(\<not> create_tried (lock s) \<and>
    acreate zk (create_path (lock s)) (data (lock s)) True True (world s) = ((code, real), w) \<longrightarrow>
      acquire_node zk s =
        (generic_callback code (drop (length (path (lock s)) + 1) real),
         s\<lparr>lock := (lock s)\<lparr>create_tried := True,
                     node := (if code = OK then Name (drop (length (path (lock s)) + 1) real)
                              else node (lock s))\<rparr>,
           world := w,
           calls := calls s @ [Create (create_path (lock s)) (data (lock s)) True True]\<rparr>)) \<and>
   (create_tried (lock s) \<and>
    aget_children zk (path (lock s)) (world s) = ((lcode, children), w1) \<and> lcode \<noteq> OK \<longrightarrow>
      (\<exists>e. acquire_node zk s =
         (Inl e, s\<lparr>world := w1, calls := calls s @ [GetChildren (path (lock s))]\<rparr>))) \<and>
   (create_tried (lock s) \<and> prefix_l (lock s) \<noteq> [] \<and>
    aget_children zk (path (lock s)) (world s) = ((OK, children), w1) \<and>
    List.find (prefix (prefix_l (lock s))) children = Some n \<longrightarrow>
      acquire_node zk s =
        (Inr n, s\<lparr>lock := (lock s)\<lparr>node := Name n\<rparr>, world := w1,
                  calls := calls s @ [GetChildren (path (lock s))]\<rparr>)) \<and>
   (create_tried (lock s) \<and>
    aget_children zk (path (lock s)) (world s) = ((OK, children), w1) \<and>
    \<not> (\<exists>c \<in> set children. prefix (prefix_l (lock s)) c) \<and>
    acreate zk (create_path (lock s)) (data (lock s)) True True w1 = ((code, real), w2) \<longrightarrow>
      acquire_node zk s =
        (generic_callback code (drop (length (path (lock s)) + 1) real),
         s\<lparr>lock := (lock s)\<lparr>node := (if code = OK
                                      then Name (drop (length (path (lock s)) + 1) real)
                                      else node (lock s))\<rparr>,
           world := w2,
           calls := calls s @ [GetChildren (path (lock s)),
                      Create (create_path (lock s)) (data (lock s)) True True]\<rparr>)) \<and>
   (create_tried (lock s) \<and> prefix_l (lock s) \<noteq> [] \<and>
    aget_children zk (path (lock s)) (world s) = ((lcode, children), w1) \<longrightarrow>
      calls (snd (acquire_node zk s)) =
        calls s @ [GetChildren (path (lock s))] @
        (if lcode = OK \<and> \<not> (\<exists>c \<in> set children. prefix (prefix_l (lock s)) c)
         then [Create (create_path (lock s)) (data (lock s)) True True] else [])) \<and>
   (acquire_node zk s = (Inr m, s') \<longrightarrow> node (lock s') = Name m)"
proof (intro conjI impI)
  assume "acquire_node zk s = (Inr m, s')"
  from acquire_node_Inr [OF this] show "node (lock s') = Name m" by simp
next
  assume "\<not> create_tried (lock s) \<and>
    acreate zk (create_path (lock s)) (data (lock s)) True True (world s) = ((code, real), w)"
  then show "acquire_node zk s =
        (generic_callback code (drop (length (path (lock s)) + 1) real),
         s\<lparr>lock := (lock s)\<lparr>create_tried := True,
                     node := (if code = OK then Name (drop (length (path (lock s)) + 1) real)
                              else node (lock s))\<rparr>,
           world := w,
           calls := calls s @ [Create (create_path (lock s)) (data (lock s)) True True]\<rparr>)"
    by (simp add: acquire_node_fresh_reply)
next
  assume "create_tried (lock s) \<and>
    aget_children zk (path (lock s)) (world s) = ((lcode, children), w1) \<and> lcode \<noteq> OK"
  then show "\<exists>e. acquire_node zk s =
         (Inl e, s\<lparr>world := w1, calls := calls s @ [GetChildren (path (lock s))]\<rparr>)"
    by (simp add: acquire_node_listing_fails)
next
  assume "create_tried (lock s) \<and> prefix_l (lock s) \<noteq> [] \<and>
    aget_children zk (path (lock s)) (world s) = ((OK, children), w1) \<and>
    List.find (prefix (prefix_l (lock s))) children = Some n"
  then show "acquire_node zk s =
        (Inr n, s\<lparr>lock := (lock s)\<lparr>node := Name n\<rparr>, world := w1,
                  calls := calls s @ [GetChildren (path (lock s))]\<rparr>)"
    by (simp add: acquire_node_found)
next
  assume "create_tried (lock s) \<and>
    aget_children zk (path (lock s)) (world s) = ((OK, children), w1) \<and>
    \<not> (\<exists>c \<in> set children. prefix (prefix_l (lock s)) c) \<and>
    acreate zk (create_path (lock s)) (data (lock s)) True True w1 = ((code, real), w2)"
  then show "acquire_node zk s =
        (generic_callback code (drop (length (path (lock s)) + 1) real),
         s\<lparr>lock := (lock s)\<lparr>node := (if code = OK
                                      then Name (drop (length (path (lock s)) + 1) real)
                                      else node (lock s))\<rparr>,
           world := w2,
           calls := calls s @ [GetChildren (path (lock s)),
                      Create (create_path (lock s)) (data (lock s)) True True]\<rparr>)"
    by (intro acquire_node_not_found) blast+
next
  assume h: "create_tried (lock s) \<and> prefix_l (lock s) \<noteq> [] \<and>
    aget_children zk (path (lock s)) (world s) = ((lcode, children), w1)"
  then have t: "create_tried (lock s)" and ne: "prefix_l (lock s) \<noteq> []"
    and a: "aget_children zk (path (lock s)) (world s) = ((lcode, children), w1)"
    by simp_all
  show "calls (snd (acquire_node zk s)) =
        calls s @ [GetChildren (path (lock s))] @
        (if lcode = OK \<and> \<not> (\<exists>c \<in> set children. prefix (prefix_l (lock s)) c)
         then [Create (create_path (lock s)) (data (lock s)) True True] else [])"
  proof (cases "lcode = OK")
    case False
    from acquire_node_listing_fails [OF t a False] obtain e where
      "acquire_node zk s =
         (Inl e, s\<lparr>world := w1, calls := calls s @ [GetChildren (path (lock s))]\<rparr>)" ..
    with False show ?thesis by simp
  next
    case True
    with a have a': "aget_children zk (path (lock s)) (world s) = ((OK, children), w1)"
      by simp
    from acquire_node_retried_calls [OF t ne a'] True show ?thesis by simp
  qed
qed

theorem acquire_node_spec_witness:
  "acquire_node scripted
     \<lparr>lock = demo, world = [RCreate OK ''/locks/demo/0a1b_lock_0000000002''], calls = []\<rparr> =
     (Inr ''0a1b_lock_0000000002'',
      \<lparr>lock = demo\<lparr>create_tried := True, node := Name ''0a1b_lock_0000000002''\<rparr>,
        world = [], calls = [Create ''/locks/demo/0a1b_lock_'' ''A'' True True]\<rparr>) \<and>
   acquire_node scripted
     \<lparr>lock = demo\<lparr>create_tried := True\<rparr>,
       world = [RChildren CONNECTIONLOSS [], RCreate OK ''/locks/demo/0a1b_lock_0000000002''],
       calls = []\<rparr> =
     (Inl ConnectionLossException,
      \<lparr>lock = demo\<lparr>create_tried := True\<rparr>,
        world = [RCreate OK ''/locks/demo/0a1b_lock_0000000002''],
        calls = [GetChildren ''/locks/demo'']\<rparr>) \<and>
   acquire_node scripted
     \<lparr>lock = demo\<lparr>create_tried := True\<rparr>,
       world = [RChildren OK [''ff_lock_0000000001'', ''0a1b_lock_0000000002'']],
       calls = []\<rparr> =
     (Inr ''0a1b_lock_0000000002'',
      \<lparr>lock = demo\<lparr>create_tried := True, node := Name ''0a1b_lock_0000000002''\<rparr>,
        world = [], calls = [GetChildren ''/locks/demo'']\<rparr>) \<and>
   acquire_node scripted
     \<lparr>lock = demo\<lparr>create_tried := True\<rparr>,
       world = [RChildren OK [''ff_lock_0000000001''],
                RCreate OK ''/locks/demo/0a1b_lock_0000000003''],
       calls = []\<rparr> =
     (Inr ''0a1b_lock_0000000003'',
      \<lparr>lock = demo\<lparr>create_tried := True, node := Name ''0a1b_lock_0000000003''\<rparr>,
        world = [],
        calls = [GetChildren ''/locks/demo'',
                 Create ''/locks/demo/0a1b_lock_'' ''A'' True True]\<rparr>)"
  using
    acquire_node_spec [where zk = scripted
      and s = "\<lparr>lock = demo, world = [RCreate OK ''/locks/demo/0a1b_lock_0000000002''],
                calls = []\<rparr>"
      and code = OK and real = "''/locks/demo/0a1b_lock_0000000002''" and w = "[]"]
    acquire_node_spec [where zk = scripted
      and s = "\<lparr>lock = demo\<lparr>create_tried := True\<rparr>,
                world = [RChildren CONNECTIONLOSS [],
                         RCreate OK ''/locks/demo/0a1b_lock_0000000002''],
                calls = []\<rparr>"
      and lcode = CONNECTIONLOSS and children = "[]"
      and ?w1.0 = "[RCreate OK ''/locks/demo/0a1b_lock_0000000002'']"]
    acquire_node_spec [where zk = scripted
      and s = "\<lparr>lock = demo\<lparr>create_tried := True\<rparr>,
                world = [RChildren OK [''ff_lock_0000000001'', ''0a1b_lock_0000000002'']],
                calls = []\<rparr>"
      and lcode = OK and children = "[''ff_lock_0000000001'', ''0a1b_lock_0000000002'']"
      and ?w1.0 = "[]" and n = "''0a1b_lock_0000000002''"]
    acquire_node_spec [where zk = scripted
      and s = "\<lparr>lock = demo\<lparr>create_tried := True\<rparr>,
                world = [RChildren OK [''ff_lock_0000000001''],
                         RCreate OK ''/locks/demo/0a1b_lock_0000000003''],
                calls = []\<rparr>"
      and lcode = OK and children = "[''ff_lock_0000000001'']"
      and ?w1.0 = "[RCreate OK ''/locks/demo/0a1b_lock_0000000003'']"
      and code = OK and real = "''/locks/demo/0a1b_lock_0000000003''" and ?w2.0 = "[]"]
  by (simp add: scripted_def demo_def init_def LOCK_NAME_def generic_callback_def
      err_to_exception_def acquire_node_def find_node_def client_get_children_def)

section \<open>One pass of the loop\<close>


lemma get_sorted_children_reply:
  assumes "aget_children zk (path (lock s)) (world s) = ((code, children), w)"
  shows "get_sorted_children zk s =
    (if code = OK then Inr (sort_key sort_key_of children)
     else (case err_to_exception code of Some exc \<Rightarrow> Inl exc | None \<Rightarrow> Inl GenericException),
     s\<lparr>world := w, calls := calls s @ [GetChildren (path (lock s))]\<rparr>)"
  by (simp add: get_sorted_children_def client_get_children_reply [OF assms]
      generic_callback_def split: option.splits)

lemma get_sorted_children_Inr:
  "get_sorted_children zk s = (Inr cs, s1) \<longleftrightarrow>
     (\<exists>children w. aget_children zk (path (lock s)) (world s) = ((OK, children), w) \<and>
        cs = sort_key sort_key_of children \<and>
        s1 = s\<lparr>world := w, calls := calls s @ [GetChildren (path (lock s))]\<rparr>)"
proof -
  obtain code children w where
    a: "aget_children zk (path (lock s)) (world s) = ((code, children), w)"
    by (cases "aget_children zk (path (lock s)) (world s)") auto
  show ?thesis
    by (cases "code = OK")
      (auto simp: get_sorted_children_reply [OF a] a split: option.splits)
qed



text \<open>What a pass does once the exists call on the predecessor has come back.\<close>

lemma acquire_pass_cases:
  obtains (list_fails) e s1 where
      "get_sorted_children zk s = (Inl e, s1)" "acquire_pass zk nd s = (Raise e, s1)"
  | (absent) children s1 where
      "get_sorted_children zk s = (Inr children, s1)" "index_of children nd = None"
      "acquire_pass zk nd s = (Raise ForceRetryError, s1)"
  | (first) children s1 where
      "get_sorted_children zk s = (Inr children, s1)" "index_of children nd = Some 0"
      "acquire_pass zk nd s = (Return True, s1)"
  | (exists_fails) children s1 i e s2 where
      "get_sorted_children zk s = (Inr children, s1)" "index_of children nd = Some (Suc i)"
      "client_exists zk (path (lock s1) @ ''/'' @ children ! i) True s1 = (Inl e, s2)"
      "acquire_pass zk nd s = (Raise e, s2)"
  | (waits) children s1 i st s2 s3 where
      "get_sorted_children zk s = (Inr children, s1)" "index_of children nd = Some (Suc i)"
      "client_exists zk (path (lock s1) @ ''/'' @ children ! i) True s1 = (Inr st, s2)"
      "acquire_pass zk nd s = (Again, s3) \<or> acquire_pass zk nd s = (Blocked, s3)"
      "lock s3 = lock s2" "\<exists>rest. calls s3 = calls s2 @ rest"
proof -
  obtain r s1 where r: "get_sorted_children zk s = (r, s1)"
    by (cases "get_sorted_children zk s")
  show ?thesis
  proof (cases r)
    case (Inl e)
    with r show ?thesis by (intro list_fails [of e s1]) (simp_all add: acquire_pass_def)
  next
    case (Inr children)
    show ?thesis
    proof (cases "index_of children nd")
      case None
      with r Inr show ?thesis
        by (intro absent [of children s1]) (simp_all add: acquire_pass_def)
    next
      case (Some j)
      show ?thesis
      proof (cases j)
        case 0
        with r Inr Some show ?thesis
          by (intro first [of children s1]) (simp_all add: acquire_pass_def)
      next
        case (Suc i)
        let ?p = "path (lock s1) @ ''/'' @ children ! i"
        obtain r2 s2 where r2: "client_exists zk ?p True s1 = (r2, s2)"
          by (cases "client_exists zk ?p True s1")
        show ?thesis
        proof (cases r2)
          case (Inl e)
          with r Inr Some Suc r2 show ?thesis
            by (intro exists_fails [of children s1 i e s2]) (simp_all add: acquire_pass_def)
        next
          case st: (Inr st)
          show ?thesis
          proof (cases "st \<noteq> None \<and> st \<noteq> Some []")
            case False
            with r Inr Some Suc r2 st show ?thesis
              by (intro waits [of children s1 i st s2 s2]) (auto simp: acquire_pass_def)
          next
            case True
            show ?thesis
            proof (cases "cond_wait zk (world s2)")
              case None
              with r Inr Some Suc r2 st True show ?thesis
                by (intro waits [of children s1 i st s2 "s2\<lparr>calls := calls s2 @ [Wait]\<rparr>"])
                  (auto simp: acquire_pass_def)
            next
              case (Some w)
              with r Inr \<open>index_of children nd = Some j\<close> Suc r2 st True show ?thesis
                by (intro waits [of children s1 i st s2
                      "s2\<lparr>world := w, calls := calls s2 @ [Wait]\<rparr>"])
                  (auto simp: acquire_pass_def)
            qed
          qed
        qed
      qed
    qed
  qed
qed

lemma acquire_pass_Return:
  "acquire_pass zk nd s = (Return b, s') \<longleftrightarrow>
     b \<and> (\<exists>children. get_sorted_children zk s = (Inr children, s') \<and>
            index_of children nd = Some 0)"
  by (cases zk nd s rule: acquire_pass_cases) auto


lemma acquire_pass_first:
  "fst (acquire_pass zk nd s) = Return True \<longleftrightarrow>
     (\<exists>children w. aget_children zk (path (lock s)) (world s) = ((OK, children), w) \<and>
        index_of (sort_key sort_key_of children) nd = Some 0)"
proof -
  have "fst (acquire_pass zk nd s) = Return True \<longleftrightarrow>
        acquire_pass zk nd s = (Return True, snd (acquire_pass zk nd s))"
    by (cases "acquire_pass zk nd s") simp
  also have "\<dots> \<longleftrightarrow>
     (\<exists>children. get_sorted_children zk s = (Inr children, snd (acquire_pass zk nd s)) \<and>
        index_of children nd = Some 0)"
    by (simp add: acquire_pass_Return)
  also have "\<dots> \<longleftrightarrow>
     (\<exists>children w. aget_children zk (path (lock s)) (world s) = ((OK, children), w) \<and>
        index_of (sort_key sort_key_of children) nd = Some 0)"
  proof
    assume "\<exists>children. get_sorted_children zk s = (Inr children, snd (acquire_pass zk nd s)) \<and>
        index_of children nd = Some 0"
    then show "\<exists>children w. aget_children zk (path (lock s)) (world s) = ((OK, children), w) \<and>
        index_of (sort_key sort_key_of children) nd = Some 0"
      by (auto simp: get_sorted_children_Inr)
  next
    assume "\<exists>children w. aget_children zk (path (lock s)) (world s) = ((OK, children), w) \<and>
        index_of (sort_key sort_key_of children) nd = Some 0"
    then obtain children w where
      a: "aget_children zk (path (lock s)) (world s) = ((OK, children), w)" and
      i: "index_of (sort_key sort_key_of children) nd = Some 0"
      by blast
    let ?s1 = "s\<lparr>world := w, calls := calls s @ [GetChildren (path (lock s))]\<rparr>"
    from a have g: "get_sorted_children zk s = (Inr (sort_key sort_key_of children), ?s1)"
      by (simp add: get_sorted_children_reply [OF a])
    with i have "acquire_pass zk nd s = (Return True, ?s1)"
      by (simp add: acquire_pass_def)
    with g i show "\<exists>children. get_sorted_children zk s =
        (Inr children, snd (acquire_pass zk nd s)) \<and> index_of children nd = Some 0"
      by simp
  qed
  finally show ?thesis .
qed

lemma acquire_pass_never_False: "fst (acquire_pass zk nd s) \<noteq> Return False"
  using acquire_pass_Return [of zk nd s False "snd (acquire_pass zk nd s)"]
  by (cases "acquire_pass zk nd s") auto

lemma acquire_pass_at_first:
  assumes a: "aget_children zk (path (lock s)) (world s) = ((OK, children), w)"
    and i: "index_of (sort_key sort_key_of children) nd = Some 0"
  shows "acquire_pass zk nd s =
    (Return True, s\<lparr>world := w, calls := calls s @ [GetChildren (path (lock s))]\<rparr>)"
  using i by (simp add: acquire_pass_def get_sorted_children_reply [OF a])

lemma acquire_pass_at_later:
  assumes a: "aget_children zk (path (lock s)) (world s) = ((OK, children), w)"
    and i: "index_of (sort_key sort_key_of children) nd = Some (Suc i)"
    and x: "aexists zk (path (lock s) @ ''/'' @ sort_key sort_key_of children ! i) True w =
              ((code, st), w2)"
  shows "acquire_pass zk nd s =
    (let s2 = s\<lparr>world := w2,
                 calls := calls s @ [GetChildren (path (lock s)),
                   Exists (path (lock s) @ ''/'' @ sort_key sort_key_of children ! i) True]\<rparr>
     in case exists_callback code st of
          Inl e \<Rightarrow> (Raise e, s2)
        | Inr st' \<Rightarrow>
            if st' \<noteq> None \<and> st' \<noteq> Some []
            then (case cond_wait zk w2 of
                    None \<Rightarrow> (Blocked, s2\<lparr>calls := calls s2 @ [Wait]\<rparr>)
                  | Some w3 \<Rightarrow> (Again, s2\<lparr>world := w3, calls := calls s2 @ [Wait]\<rparr>))
            else (Again, s2))"
  using i x
  by (simp add: acquire_pass_def get_sorted_children_reply [OF a] client_exists_def Let_def
      split: sum.splits option.splits)

lemma acquire_loop_at_later:
  assumes a: "aget_children zk (path (lock s)) (world s) = ((OK, children), w)"
    and i: "index_of (sort_key sort_key_of children) nd = Some (Suc i)"
    and x: "aexists zk (path (lock s) @ ''/'' @ sort_key sort_key_of children ! i) True w =
              ((code, st), w2)"
  shows "acquire_loop (Suc k) zk nd s =
    (let s2 = s\<lparr>world := w2,
                 calls := calls s @ [GetChildren (path (lock s)),
                   Exists (path (lock s) @ ''/'' @ sort_key sort_key_of children ! i) True]\<rparr>
     in case exists_callback code st of
          Inl e \<Rightarrow> Some (Inl e, s2)
        | Inr st' \<Rightarrow>
            if st' \<noteq> None \<and> st' \<noteq> Some []
            then (case cond_wait zk w2 of
                    None \<Rightarrow> None
                  | Some w3 \<Rightarrow> acquire_loop k zk nd (s2\<lparr>world := w3, calls := calls s2 @ [Wait]\<rparr>))
            else acquire_loop k zk nd s2)"
  by (simp add: acquire_pass_at_later [OF a i x] Let_def split: sum.splits option.splits)

section \<open>The whole acquire body\<close>

lemma acquire_loop_Inr:
  "acquire_loop k zk nd s = Some (Inr b, s') \<Longrightarrow>
     b \<and> (\<exists>s0 children. get_sorted_children zk s0 = (Inr children, s') \<and>
            index_of children nd = Some 0)"
proof (induction k arbitrary: s)
  case 0
  then show ?case by simp
next
  case (Suc k)
  obtain p s1 where p: "acquire_pass zk nd s = (p, s1)"
    by (cases "acquire_pass zk nd s")
  show ?case
  proof (cases p)
    case (Return b')
    with Suc.prems p have "b' = b" "s1 = s'" by simp_all
    with p Return have "acquire_pass zk nd s = (Return b, s')" by simp
    then show ?thesis by (auto simp: acquire_pass_Return)
  next
    case (Raise e)
    with Suc.prems p show ?thesis by simp
  next
    case Again
    with Suc.prems p have "acquire_loop k zk nd s1 = Some (Inr b, s')" by simp
    then show ?thesis by (rule Suc.IH)
  next
    case Blocked
    with Suc.prems p show ?thesis by simp
  qed
qed





lemma inner_acquire_cases:
  assumes "inner_acquire k zk s = Some (r, s')"
  obtains (node_fails) e where "acquire_node zk s = (Inl e, s')" "r = Inl e"
  | (loop) nd s1 where "acquire_node zk s = (Inr nd, s1)" "acquire_loop k zk nd s1 = Some (r, s')"
proof -
  obtain r1 s1 where r1: "acquire_node zk s = (r1, s1)"
    by (cases "acquire_node zk s")
  show ?thesis
  proof (cases r1)
    case (Inl e)
    with assms r1 show ?thesis by (intro node_fails [of e]) (auto simp: inner_acquire_def)
  next
    case (Inr nd)
    with assms r1 show ?thesis by (intro loop [of nd s1]) (auto simp: inner_acquire_def)
  qed
qed

lemma inner_acquire_Inr:
  assumes "inner_acquire k zk s = Some (Inr b, s')"
  shows "b \<and> (\<exists>nd s0 children. node (lock s') = Name nd \<and>
           get_sorted_children zk s0 = (Inr children, s') \<and> index_of children nd = Some 0)"
  using assms
proof (cases rule: inner_acquire_cases)
  case (node_fails e)
  then show ?thesis by simp
next
  case (loop nd s1)
  from acquire_node_Inr [OF loop(1)] have "node (lock s1) = Name nd" by simp
  moreover from loop(2) have "lock s' = lock s1" by (rule acquire_loop_lock)
  ultimately have "node (lock s') = Name nd" by simp
  with acquire_loop_Inr [OF loop(2)] show ?thesis by blast
qed


section \<open>Acceptance, force-retry and cleanup\<close>

lemma acquire_cases:
  assumes "acquire n k zk s = Some (r, s')"
  obtains (acquired) b s1 where
      "retry n (inner_acquire k zk) s = Some (Inr b, s1)" "r = Inr ()"
      "s' = s1\<lparr>lock := (lock s1)\<lparr>is_acquired := True\<rparr>\<rparr>"
  | (failed) e s1 where
      "retry n (inner_acquire k zk) s = Some (Inl e, s1)" "r = Inl e"
      "s' = best_effort_cleanup zk s1"
proof (cases "retry n (inner_acquire k zk) s")
  case None
  with assms show ?thesis by (simp add: acquire_def)
next
  case (Some x)
  obtain r1 s1 where x: "x = (r1, s1)" by (cases x)
  show ?thesis
  proof (cases r1)
    case (Inl e)
    with assms Some x show ?thesis by (intro failed [of e s1]) (auto simp: acquire_def)
  next
    case (Inr b)
    with assms Some x show ?thesis by (intro acquired [of b s1]) (auto simp: acquire_def)
  qed
qed

lemma acquire_Inr:
  assumes "acquire n k zk s = Some (Inr u, s')"
  shows "is_acquired (lock s') \<and>
     (\<exists>nd s0 s1 children. node (lock s') = Name nd \<and>
        get_sorted_children zk s0 = (Inr children, s1) \<and> index_of children nd = Some 0 \<and>
        s' = s1\<lparr>lock := (lock s1)\<lparr>is_acquired := True\<rparr>\<rparr>)"
  using assms
proof (cases rule: acquire_cases)
  case (failed e s1)
  then show ?thesis by simp
next
  case (acquired b s1)
  from acquired(1) have "\<exists>s0. inner_acquire k zk s0 = Some (Inr b, s1)"
    by (rule retry_Some_from_func)
  then obtain s0 where "inner_acquire k zk s0 = Some (Inr b, s1)" ..
  from inner_acquire_Inr [OF this] obtain nd s0' children where
    "node (lock s1) = Name nd" "get_sorted_children zk s0' = (Inr children, s1)"
    "index_of children nd = Some 0"
    by blast
  with acquired(3) show ?thesis by auto
qed

text \<open>
  C4. A pass of the loop returns, and then returns \<open>True\<close>, exactly when the listing
  succeeds and the node's name is at index 0 of the sorted children; the loop then
  returns \<open>True\<close> in the state the listing has left. At an index above 0 the loop lists,
  issues the exists call with a watch on the immediate predecessor, and does not return:
  it raises what the exists call raises; else, when the predecessor is there, it waits
  and, once woken, runs the remaining passes from the state it woke up in (it never
  returns when it is never woken); else it runs the remaining passes at once. The acquire
  body is this loop run on the node of the first step; it returns only after a listing
  with the handle's node at index 0, and \<open>acquire\<close> sets \<open>is_acquired\<close> on whatever the
  executor returns from the body, so that it is true whenever \<open>acquire\<close> returns
  normally.
\<close>

theorem acquire_first_only:
  "(fst (acquire_pass zk nd s) = Return True \<longleftrightarrow>
      (\<exists>children w. aget_children zk (path (lock s)) (world s) = ((OK, children), w) \<and>
         index_of (sort_key sort_key_of children) nd = Some 0)) \<and>
   fst (acquire_pass zk nd s) \<noteq> Return False \<and>
   (aget_children zk (path (lock s)) (world s) = ((OK, children), w) \<and>
    index_of (sort_key sort_key_of children) nd = Some 0 \<longrightarrow>
      acquire_loop (Suc k) zk nd s =
        Some (Inr True, s\<lparr>world := w, calls := calls s @ [GetChildren (path (lock s))]\<rparr>)) \<and>
   (aget_children zk (path (lock s)) (world s) = ((OK, children), w) \<and>
    index_of (sort_key sort_key_of children) nd = Some (Suc i) \<and>
    aexists zk (path (lock s) @ ''/'' @ sort_key sort_key_of children ! i) True w =
      ((code, st), w2) \<longrightarrow>
      acquire_loop (Suc k) zk nd s =
        (let s2 = s\<lparr>world := w2,
                     calls := calls s @ [GetChildren (path (lock s)),
                       Exists (path (lock s) @ ''/'' @ sort_key sort_key_of children ! i)
                         True]\<rparr>
         in case exists_callback code st of
              Inl e \<Rightarrow> Some (Inl e, s2)
            | Inr st' \<Rightarrow>
                if st' \<noteq> None \<and> st' \<noteq> Some []
                then (case cond_wait zk w2 of
                        None \<Rightarrow> None
                      | Some w3 \<Rightarrow>
                          acquire_loop k zk nd (s2\<lparr>world := w3, calls := calls s2 @ [Wait]\<rparr>))
                else acquire_loop k zk nd s2)) \<and>
   (acquire_node zk s = (Inr nd, t1) \<longrightarrow> inner_acquire k zk s = acquire_loop k zk nd t1) \<and>
   (inner_acquire k zk s = Some (Inr b, s') \<longrightarrow>
      b \<and> (\<exists>nd s0 children. node (lock s') = Name nd \<and>
             get_sorted_children zk s0 = (Inr children, s') \<and>
             index_of children nd = Some 0)) \<and>
   (retry n (inner_acquire k zk) s = Some (Inr b, t2) \<longrightarrow>
      acquire n k zk s = Some (Inr (), t2\<lparr>lock := (lock t2)\<lparr>is_acquired := True\<rparr>\<rparr>)) \<and>
   (acquire n k zk s = Some (Inr u, s'') \<longrightarrow>
      is_acquired (lock s'') \<and>
      (\<exists>nd s0 s1 children. node (lock s'') = Name nd \<and>
         get_sorted_children zk s0 = (Inr children, s1) \<and> index_of children nd = Some 0 \<and>
         s'' = s1\<lparr>lock := (lock s1)\<lparr>is_acquired := True\<rparr>\<rparr>))"
proof -
  have first: "aget_children zk (path (lock s)) (world s) = ((OK, children), w) \<and>
    index_of (sort_key sort_key_of children) nd = Some 0 \<longrightarrow>
      acquire_loop (Suc k) zk nd s =
        Some (Inr True, s\<lparr>world := w, calls := calls s @ [GetChildren (path (lock s))]\<rparr>)"
    by (simp add: acquire_pass_at_first)
  have later: "aget_children zk (path (lock s)) (world s) = ((OK, children), w) \<and>
    index_of (sort_key sort_key_of children) nd = Some (Suc i) \<and>
    aexists zk (path (lock s) @ ''/'' @ sort_key sort_key_of children ! i) True w =
      ((code, st), w2) \<longrightarrow>
      acquire_loop (Suc k) zk nd s =
        (let s2 = s\<lparr>world := w2,
                     calls := calls s @ [GetChildren (path (lock s)),
                       Exists (path (lock s) @ ''/'' @ sort_key sort_key_of children ! i)
                         True]\<rparr>
         in case exists_callback code st of
              Inl e \<Rightarrow> Some (Inl e, s2)
            | Inr st' \<Rightarrow>
                if st' \<noteq> None \<and> st' \<noteq> Some []
                then (case cond_wait zk w2 of
                        None \<Rightarrow> None
                      | Some w3 \<Rightarrow>
                          acquire_loop k zk nd (s2\<lparr>world := w3, calls := calls s2 @ [Wait]\<rparr>))
                else acquire_loop k zk nd s2)"
    using acquire_loop_at_later [of zk s children w nd i code st w2 k] by blast
  have enter: "acquire_node zk s = (Inr nd, t1) \<longrightarrow>
      inner_acquire k zk s = acquire_loop k zk nd t1"
    by (simp add: inner_acquire_def)
  have body: "inner_acquire k zk s = Some (Inr b, s') \<longrightarrow>
      b \<and> (\<exists>nd s0 children. node (lock s') = Name nd \<and>
             get_sorted_children zk s0 = (Inr children, s') \<and>
             index_of children nd = Some 0)"
    using inner_acquire_Inr [of k zk s b s'] by blast
  have flag: "retry n (inner_acquire k zk) s = Some (Inr b, t2) \<longrightarrow>
      acquire n k zk s = Some (Inr (), t2\<lparr>lock := (lock t2)\<lparr>is_acquired := True\<rparr>\<rparr>)"
    by (simp add: acquire_def)
  have whole: "acquire n k zk s = Some (Inr u, s'') \<longrightarrow>
      is_acquired (lock s'') \<and>
      (\<exists>nd s0 s1 children. node (lock s'') = Name nd \<and>
         get_sorted_children zk s0 = (Inr children, s1) \<and> index_of children nd = Some 0 \<and>
         s'' = s1\<lparr>lock := (lock s1)\<lparr>is_acquired := True\<rparr>\<rparr>)"
    using acquire_Inr [of n k zk s u s''] by blast
  from acquire_pass_first [of zk nd s] acquire_pass_never_False [of zk nd s]
    first later enter body flag whole
  show ?thesis by (intro conjI)
qed


lemma best_effort_cleanup_reply:
  assumes ne: "prefix_l (lock s) \<noteq> []"
    and a: "aget_children zk (path (lock s)) (world s) = ((code, children), w)"
  shows "best_effort_cleanup zk s =
     s\<lparr>world :=
         (if code = OK
          then (case List.find (prefix (prefix_l (lock s))) children of
                  None \<Rightarrow> w
                | Some nd \<Rightarrow> snd (adelete zk (path (lock s) @ ''/'' @ nd) (- 1) w))
          else w),
       calls :=
         calls s @ [GetChildren (path (lock s))] @
         (if code = OK
          then (case List.find (prefix (prefix_l (lock s))) children of
                  None \<Rightarrow> []
                | Some nd \<Rightarrow> [Delete (path (lock s) @ ''/'' @ nd)])
          else [])\<rparr>"
proof (cases "code = OK")
  case False
  then show ?thesis
    by (simp add: best_effort_cleanup_def find_node_reply [OF a] generic_callback_err)
next
  case True
  let ?s1 = "s\<lparr>world := w, calls := calls s @ [GetChildren (path (lock s))]\<rparr>"
  let ?found = "List.find (prefix (prefix_l (lock s))) children"
  from a True have f: "find_node zk s = (Inr ?found, ?s1)"
    by (simp add: find_node_OK)
  show ?thesis
  proof (cases ?found)
    case None
    with True f show ?thesis by (simp add: best_effort_cleanup_def)
  next
    case (Some n)
    then have "prefix (prefix_l (lock s)) n" by (auto simp: find_Some_iff)
    with ne have "n \<noteq> []" by auto
    with True f Some show ?thesis
      by (simp add: best_effort_cleanup_def client_delete_def split: prod.splits)
  qed
qed

text \<open>
  C7. When the executor lets a failure of the acquire body through, \<open>acquire\<close> runs the
  cleanup and raises that same failure. The state it leaves is pinned: the children are
  listed; when the listing succeeds and finds a child that starts with the handle's
  prefix, the delete of that child is issued on the service in the world the listing has
  left, and the world afterwards is the one the delete leaves, whatever the delete
  answers; the handle's fields are untouched; nothing but the original failure comes
  out.
\<close>

theorem acquire_failure_cleanup:
  assumes "retry n (inner_acquire k zk) s = Some (Inl e, s1)"
    and "prefix_l (lock s1) \<noteq> []"
    and "aget_children zk (path (lock s1)) (world s1) = ((code, children), w)"
  shows "acquire n k zk s =
     Some (Inl e,
       s1\<lparr>world :=
            (if code = OK
             then (case List.find (prefix (prefix_l (lock s1))) children of
                     None \<Rightarrow> w
                   | Some nd \<Rightarrow> snd (adelete zk (path (lock s1) @ ''/'' @ nd) (- 1) w))
             else w),
          calls :=
            calls s1 @ [GetChildren (path (lock s1))] @
            (if code = OK
             then (case List.find (prefix (prefix_l (lock s1))) children of
                     None \<Rightarrow> []
                   | Some nd \<Rightarrow> [Delete (path (lock s1) @ ''/'' @ nd)])
             else [])\<rparr>)"
proof -
  from assms(1) have "acquire n k zk s = Some (Inl e, best_effort_cleanup zk s1)"
    by (simp add: acquire_def)
  with best_effort_cleanup_reply [OF assms(2,3)] show ?thesis by simp
qed

text \<open>The definitions a run against the scripted service unfolds.\<close>

lemmas run_defs =
  scripted_def demo_def init_def LOCK_NAME_def inner_acquire_def acquire_node_def
  create_node_def find_node_def acquire_pass_def get_sorted_children_def client_create_def
  client_get_children_def client_exists_def client_delete_def generic_callback_def
  exists_callback_def err_to_exception_def sort_key_of_def py_find_def slice_from_def
  retryable_def

theorem acquire_first_only_witness:
  "acquire_loop (Suc (Suc 0)) scripted ''0a1b_lock_0000000002''
     \<lparr>lock = demo,
       world = [RChildren OK [''0a1b_lock_0000000002'', ''ff_lock_0000000001''],
                RExists OK (Some [(''version'', 0)]),
                RChildren OK [''0a1b_lock_0000000002'']],
       calls = []\<rparr> =
     Some (Inr True,
       \<lparr>lock = demo, world = [],
         calls = [GetChildren ''/locks/demo'', Exists ''/locks/demo/ff_lock_0000000001'' True,
                  Wait, GetChildren ''/locks/demo'']\<rparr>) \<and>
   acquire (Suc 0) (Suc (Suc 0)) scripted
     \<lparr>lock = demo,
       world = [RCreate OK ''/locks/demo/0a1b_lock_0000000002'',
                RChildren OK [''0a1b_lock_0000000002'', ''ff_lock_0000000001''],
                RExists NONODE None,
                RChildren OK [''0a1b_lock_0000000002'']],
       calls = []\<rparr> =
     Some (Inr (),
       \<lparr>lock = demo\<lparr>create_tried := True, is_acquired := True,
                     node := Name ''0a1b_lock_0000000002''\<rparr>,
         world = [],
         calls = [Create ''/locks/demo/0a1b_lock_'' ''A'' True True,
                  GetChildren ''/locks/demo'', Exists ''/locks/demo/ff_lock_0000000001'' True,
                  GetChildren ''/locks/demo'']\<rparr>) \<and>
   is_acquired (demo\<lparr>create_tried := True, is_acquired := True,
                     node := Name ''0a1b_lock_0000000002''\<rparr>)"
  using
    acquire_first_only [where zk = scripted and nd = "''0a1b_lock_0000000002''"
      and s = "\<lparr>lock = demo,
         world = [RChildren OK [''0a1b_lock_0000000002'', ''ff_lock_0000000001''],
                  RExists OK (Some [(''version'', 0)]),
                  RChildren OK [''0a1b_lock_0000000002'']],
         calls = []\<rparr>"
      and children = "[''0a1b_lock_0000000002'', ''ff_lock_0000000001'']"
      and w = "[RExists OK (Some [(''version'', 0)]), RChildren OK [''0a1b_lock_0000000002'']]"
      and i = 0 and code = OK and st = "Some [(''version'', 0)]"
      and ?w2.0 = "[RChildren OK [''0a1b_lock_0000000002'']]" and k = "Suc 0"]
    acquire_first_only [where zk = scripted and nd = "''0a1b_lock_0000000002''"
      and s = "\<lparr>lock = demo,
         world = [RChildren OK [''0a1b_lock_0000000002'']],
         calls = [GetChildren ''/locks/demo'', Exists ''/locks/demo/ff_lock_0000000001'' True,
                  Wait]\<rparr>"
      and children = "[''0a1b_lock_0000000002'']" and w = "[]" and k = 0]
    acquire_first_only [where zk = scripted
      and s = "\<lparr>lock = demo,
         world = [RCreate OK ''/locks/demo/0a1b_lock_0000000002'',
                  RChildren OK [''0a1b_lock_0000000002'', ''ff_lock_0000000001''],
                  RExists NONODE None,
                  RChildren OK [''0a1b_lock_0000000002'']],
         calls = []\<rparr>"
      and n = "Suc 0" and k = "Suc (Suc 0)" and b = True and u = "()"
      and ?t2.0 = "\<lparr>lock = demo\<lparr>create_tried := True, node := Name ''0a1b_lock_0000000002''\<rparr>,
         world = [],
         calls = [Create ''/locks/demo/0a1b_lock_'' ''A'' True True,
                  GetChildren ''/locks/demo'', Exists ''/locks/demo/ff_lock_0000000001'' True,
                  GetChildren ''/locks/demo'']\<rparr>"
      and s'' = "\<lparr>lock = demo\<lparr>create_tried := True, is_acquired := True,
                     node := Name ''0a1b_lock_0000000002''\<rparr>,
         world = [],
         calls = [Create ''/locks/demo/0a1b_lock_'' ''A'' True True,
                  GetChildren ''/locks/demo'', Exists ''/locks/demo/ff_lock_0000000001'' True,
                  GetChildren ''/locks/demo'']\<rparr>"]
  by (simp add: run_defs acquire_def Let_def)


theorem acquire_failure_cleanup_witness:
  "acquire (Suc (Suc 0)) (Suc 0) scripted
     \<lparr>lock = demo,
       world = [RCreate CONNECTIONLOSS [], RChildren OK [''0a1b_lock_0000000002''],
                RChildren NOAUTH [], RChildren OK [''0a1b_lock_0000000002''],
                RDelete NONODE],
       calls = []\<rparr> =
     Some (Inl NoAuthException,
       \<lparr>lock = demo\<lparr>create_tried := True, node := Name ''0a1b_lock_0000000002''\<rparr>,
         world = [],
         calls = [Create ''/locks/demo/0a1b_lock_'' ''A'' True True,
                  GetChildren ''/locks/demo'', GetChildren ''/locks/demo'',
                  GetChildren ''/locks/demo'',
                  Delete ''/locks/demo/0a1b_lock_0000000002'']\<rparr>)"
  using acquire_failure_cleanup [where zk = scripted and n = "Suc (Suc 0)" and k = "Suc 0"
      and s = "\<lparr>lock = demo,
            world = [RCreate CONNECTIONLOSS [], RChildren OK [''0a1b_lock_0000000002''],
                     RChildren NOAUTH [], RChildren OK [''0a1b_lock_0000000002''],
                     RDelete NONODE],
            calls = []\<rparr>"
      and e = NoAuthException
      and ?s1.0 = "\<lparr>lock = demo\<lparr>create_tried := True, node := Name ''0a1b_lock_0000000002''\<rparr>,
            world = [RChildren OK [''0a1b_lock_0000000002''], RDelete NONODE],
            calls = [Create ''/locks/demo/0a1b_lock_'' ''A'' True True,
                     GetChildren ''/locks/demo'', GetChildren ''/locks/demo'']\<rparr>"
      and code = OK and children = "[''0a1b_lock_0000000002'']" and w = "[RDelete NONODE]"]
  by (simp add: run_defs)

end
